theory Spec2Isabelle
  imports Main "HOL-Library.Word"
begin

unbundle bit_operations_syntax

section \<open>Shared vocabulary\<close>

text \<open>
  The kernel is 64-bit RISC-V: \<^verbatim>\<open>uint\<close> and \<^verbatim>\<open>int\<close> are 32 bits wide,
  \<^verbatim>\<open>uint64\<close> is 64 bits wide. A 32-bit field is a \<^typ>\<open>32 word\<close>, so that
  \<^verbatim>\<open>++\<close> and \<^verbatim>\<open>--\<close> wrap around as the machine does; \<open>unat\<close> reads it as
  \<^verbatim>\<open>uint\<close>, \<open>sint\<close> as \<^verbatim>\<open>int\<close>.

  A call either returns, or stops the kernel in \<^verbatim>\<open>panic\<close>, or parks the caller in
  \<^verbatim>\<open>acquiresleep\<close> on a sleep-lock somebody holds, or leaves defined C (an index past the end of \<^verbatim>\<open>ref.cnt\<close>, a null
  pointer followed), which is a value of its own here. Every operation yields the
  outcome together with the state it leaves behind.
\<close>

type_synonym uint = "32 word"
type_synonym byte = "8 word"
type_synonym pid = nat

datatype 'a res = Returns 'a | Panics string | Sleeps nat | Undefined

fun carry :: "'a res \<Rightarrow> 'b res" where
  \<comment> \<open>an outcome that is not a return, at another result type\<close>
  "carry (Panics msg) = Panics msg"
| "carry (Sleeps b) = Sleeps b"
| "carry _ = Undefined"

section \<open>The buffer cache (kernel/bio.c)\<close>

subsection \<open>Data\<close>

text \<open>
  \<^verbatim>\<open>struct buf\<close> (its declaration, buf.h, adds \<^verbatim>\<open>timestamp\<close> to the stock xv6 fields).
  A buffer is named by its index in \<^verbatim>\<open>bcache.buf\<close>; the sleep-lock of a buffer is the
  process that holds it, if any. The \<^verbatim>\<open>prev\<close>/\<^verbatim>\<open>next\<close> links are kept per bucket, as the
  list of buffers met from \<^verbatim>\<open>head.next\<close> along \<^verbatim>\<open>next\<close> until \<^verbatim>\<open>head\<close> comes round again:
  unlinking a buffer removes it from that list, linking it behind \<^verbatim>\<open>head\<close> puts it in
  front.
\<close>

record buf =
  valid :: uint
  dev :: uint
  blockno :: uint
  lock :: "pid option"
  refcnt :: uint
  timestamp :: uint
  data :: "byte list"

text \<open>
  What a sequential run leaves of the spin locks is the order of the calls, kept in
  \<open>trace\<close> beside the sleep-lock calls and the timestamp writes they bracket.
\<close>

datatype spinlock = Bucket nat | Tickslock

datatype event =
  Acquire spinlock | Release spinlock | AcquireSleep nat | ReleaseSleep nat | Stamp nat

record bcache =
  bufs :: "buf list"
  buckets :: "nat list list"
  disk :: "uint \<times> uint \<Rightarrow> byte list"
  trace :: "event list"

text \<open>
  What a call takes from its surroundings: the calling process (\<^verbatim>\<open>myproc()->pid\<close>, which
  the sleep-lock records), the value of \<^verbatim>\<open>ticks\<close> it reads, and the answer of
  \<^verbatim>\<open>holding\<close> for the spin lock of each bucket.
\<close>

record ctx =
  cpid :: pid
  cticks :: uint
  cholding :: "nat \<Rightarrow> bool"

definition NBUCKET :: nat where
  "NBUCKET = 2"

definition HASH :: "uint \<Rightarrow> nat" where
  "HASH n = unat n mod NBUCKET"

subsection \<open>Collaborators\<close>

definition upd :: "nat \<Rightarrow> (buf \<Rightarrow> buf) \<Rightarrow> bcache \<Rightarrow> bcache" where
  \<comment> \<open>an assignment through \<^verbatim>\<open>b->\<close>\<close>
  "upd b f s = s\<lparr>bufs := (bufs s)[b := f (bufs s ! b)]\<rparr>"

definition emit :: "event list \<Rightarrow> bcache \<Rightarrow> bcache" where
  "emit es s = s\<lparr>trace := trace s @ es\<rparr>"

text \<open>
  Modelled from the spec: kernel/sleeplock.c is missing. The sleep-lock is ``a sleepable
  mutual-exclusion guard'', ``held by exactly the caller who received the buffer'':
  \<open>holdingsleep\<close> tells whether the caller is the holder, \<open>acquiresleep\<close> takes a free
  lock for the caller and parks the caller on a held one, \<open>releasesleep\<close> frees it.
\<close>

definition holdingsleep :: "pid \<Rightarrow> nat \<Rightarrow> bcache \<Rightarrow> bool" where
  "holdingsleep me b s = (lock (bufs s ! b) = Some me)"

definition acquiresleep :: "pid \<Rightarrow> nat \<Rightarrow> bcache \<Rightarrow> nat res \<times> bcache" where
  "acquiresleep me b s =
     (case lock (bufs s ! b) of
        None \<Rightarrow> (Returns b, emit [AcquireSleep b] (upd b (\<lambda>x. x\<lparr>lock := Some me\<rparr>) s))
      | Some _ \<Rightarrow> (Sleeps b, emit [AcquireSleep b] s))"

definition releasesleep :: "nat \<Rightarrow> bcache \<Rightarrow> bcache" where
  "releasesleep b s = emit [ReleaseSleep b] (upd b (\<lambda>x. x\<lparr>lock := None\<rparr>) s)"

text \<open>
  Modelled from the spec: the disk driver is missing. \<open>disk_rw(Buffer&, write)\<close>: ``if
  write is false, fill data from the device and return; if true, write data to the
  device''.
\<close>

definition virtio_disk_rw :: "nat \<Rightarrow> bool \<Rightarrow> bcache \<Rightarrow> bcache" where
  "virtio_disk_rw b write s =
     (let x = bufs s ! b in
      if write then s\<lparr>disk := (disk s)((dev x, blockno x) := data x)\<rparr>
      else upd b (\<lambda>x. x\<lparr>data := disk s (dev x, blockno x)\<rparr>) s)"

definition stamp :: "ctx \<Rightarrow> nat \<Rightarrow> bcache \<Rightarrow> bcache" where
  \<comment> \<open>\<^verbatim>\<open>acquire(&tickslock); b->timestamp=ticks; release(&tickslock);\<close>\<close>
  "stamp c b s =
     emit [Release Tickslock]
       (upd b (\<lambda>x. x\<lparr>timestamp := cticks c\<rparr>) (emit [Acquire Tickslock, Stamp b] s))"

subsection \<open>binit\<close>

definition zero_buf :: buf where
  "zero_buf = \<lparr>valid = 0, dev = 0, blockno = 0, lock = None, refcnt = 0, timestamp = 0,
     data = []\<rparr>"

definition binit :: "nat \<Rightarrow> (uint \<times> uint \<Rightarrow> byte list) \<Rightarrow> bcache" where
  \<comment> \<open>\<open>nbuf\<close> is \<^verbatim>\<open>NBUF\<close> of param.h; every buffer is linked behind the head of bucket 0\<close>
  "binit nbuf d =
     \<lparr>bufs = replicate nbuf zero_buf,
      buckets = foldl (\<lambda>bk b. bk[0 := b # bk ! 0]) (replicate NBUCKET []) [0..<nbuf],
      disk = d, trace = []\<rparr>"

subsection \<open>bget\<close>

definition cached :: "bcache \<Rightarrow> uint \<Rightarrow> uint \<Rightarrow> nat \<Rightarrow> bool" where
  \<comment> \<open>\<^verbatim>\<open>b->dev == dev && b->blockno == blockno\<close>\<close>
  "cached s dv bn b = (dev (bufs s ! b) = dv \<and> blockno (bufs s ! b) = bn)"

fun scan :: "buf list \<Rightarrow> nat list \<Rightarrow> nat option \<Rightarrow> nat option" where
  \<comment> \<open>the inner loop of the miss path, \<open>b\<close> being the candidate so far\<close>
  "scan bs [] b = b"
| "scan bs (tmp # rest) b =
     scan bs rest
       (if refcnt (bs ! tmp) = 0 \<and>
           (case b of None \<Rightarrow> True | Some b' \<Rightarrow> timestamp (bs ! tmp) < timestamp (bs ! b'))
        then Some tmp else b)"

definition steal :: "nat \<Rightarrow> nat \<Rightarrow> nat \<Rightarrow> bcache \<Rightarrow> bcache" where
  \<comment> \<open>unlink \<open>b\<close> from bucket \<open>i\<close>, release that bucket, link \<open>b\<close> behind the head of \<open>bid\<close>\<close>
  "steal b i bid s =
     (let s1 = s\<lparr>buckets := (buckets s)[i := removeAll b (buckets s ! i)]\<rparr>;
          s2 = emit [Release (Bucket i)] s1
      in s2\<lparr>buckets := (buckets s2)[bid := b # buckets s2 ! bid]\<rparr>)"

definition reuse :: "ctx \<Rightarrow> uint \<Rightarrow> uint \<Rightarrow> nat \<Rightarrow> nat \<Rightarrow> bcache \<Rightarrow> nat res \<times> bcache" where
  \<comment> \<open>lines 131 to 143: the fields of the chosen buffer, the stamp, the locks\<close>
  "reuse c dv bn bid b s =
     (let s1 = upd b (\<lambda>x. x\<lparr>blockno := bn\<rparr>) s;
          s2 = upd b (\<lambda>x. x\<lparr>dev := dv\<rparr>) s1;
          s3 = upd b (\<lambda>x. x\<lparr>valid := 0\<rparr>) s2;
          s4 = upd b (\<lambda>x. x\<lparr>refcnt := 1\<rparr>) s3;
          s5 = stamp c b s4;
          s6 = emit [Release (Bucket bid)] s5
      in acquiresleep (cpid c) b s6)"

function recycle ::
  "ctx \<Rightarrow> uint \<Rightarrow> uint \<Rightarrow> nat \<Rightarrow> nat \<Rightarrow> nat \<Rightarrow> bcache \<Rightarrow> nat res \<times> bcache" where
  \<comment> \<open>the loop of the miss path at bucket \<open>i\<close>; \<open>cycle\<close> counts up from 0, so that
      \<^verbatim>\<open>cycle != NBUCKET\<close> is \<open>cycle < NBUCKET\<close>\<close>
  "recycle c dv bn bid i cycle s =
     (if \<not> cycle < NBUCKET then (Panics ''bget: no buffers'', s)
      else if i \<noteq> bid \<and> cholding c i
      then recycle c dv bn bid ((i + 1) mod NBUCKET) (cycle + 1) s
      else
        let s1 = (if i \<noteq> bid then emit [Acquire (Bucket i)] s else s) in
        case scan (bufs s1) (buckets s1 ! i) None of
          Some b \<Rightarrow> reuse c dv bn bid b (if i \<noteq> bid then steal b i bid s1 else s1)
        | None \<Rightarrow>
            recycle c dv bn bid ((i + 1) mod NBUCKET) (cycle + 1)
              (if i \<noteq> bid then emit [Release (Bucket i)] s1 else s1))"
  by pat_completeness auto
termination
  by (relation "measure (\<lambda>(c, dv, bn, bid, i, cycle, s). NBUCKET - cycle)") auto

definition bget :: "ctx \<Rightarrow> uint \<Rightarrow> uint \<Rightarrow> bcache \<Rightarrow> nat res \<times> bcache" where
  "bget c dv bn s =
     (let bid = HASH bn;
          s0 = emit [Acquire (Bucket bid)] s
      in case find (cached s0 dv bn) (buckets s0 ! bid) of
           Some b \<Rightarrow>
             (let s1 = upd b (\<lambda>x. x\<lparr>refcnt := refcnt x + 1\<rparr>) s0;
                  s2 = stamp c b s1;
                  s3 = emit [Release (Bucket bid)] s2
              in acquiresleep (cpid c) b s3)
         | None \<Rightarrow> recycle c dv bn bid bid 0 s0)"

subsection \<open>bread, bwrite, brelse, bpin, bunpin\<close>

definition bread :: "ctx \<Rightarrow> uint \<Rightarrow> uint \<Rightarrow> bcache \<Rightarrow> nat res \<times> bcache" where
  "bread c dv bn s =
     (case bget c dv bn s of
        (Returns b, s1) \<Rightarrow>
          if valid (bufs s1 ! b) = 0
          then (Returns b, upd b (\<lambda>x. x\<lparr>valid := 1\<rparr>) (virtio_disk_rw b False s1))
          else (Returns b, s1)
      | r \<Rightarrow> r)"

definition bwrite :: "ctx \<Rightarrow> nat \<Rightarrow> bcache \<Rightarrow> unit res \<times> bcache" where
  "bwrite c b s =
     (if \<not> holdingsleep (cpid c) b s then (Panics ''bwrite'', s)
      else (Returns (), virtio_disk_rw b True s))"

definition brelse :: "ctx \<Rightarrow> nat \<Rightarrow> bcache \<Rightarrow> unit res \<times> bcache" where
  "brelse c b s =
     (if \<not> holdingsleep (cpid c) b s then (Panics ''brelse'', s)
      else
        let s1 = releasesleep b s;
            bid = HASH (blockno (bufs s1 ! b));
            s2 = emit [Acquire (Bucket bid)] s1;
            s3 = upd b (\<lambda>x. x\<lparr>refcnt := refcnt x - 1\<rparr>) s2;
            s4 = stamp c b s3
        in (Returns (), emit [Release (Bucket bid)] s4))"

definition bpin :: "nat \<Rightarrow> bcache \<Rightarrow> bcache" where
  "bpin b s =
     (let l = Bucket (HASH (blockno (bufs s ! b)));
          s1 = emit [Acquire l] s;
          s2 = upd b (\<lambda>x. x\<lparr>refcnt := refcnt x + 1\<rparr>) s1
      in emit [Release (Bucket (HASH (blockno (bufs s2 ! b))))] s2)"

definition bunpin :: "nat \<Rightarrow> bcache \<Rightarrow> bcache" where
  "bunpin b s =
     (let l = Bucket (HASH (blockno (bufs s ! b)));
          s1 = emit [Acquire l] s;
          s2 = upd b (\<lambda>x. x\<lparr>refcnt := refcnt x - 1\<rparr>) s1
      in emit [Release (Bucket (HASH (blockno (bufs s2 ! b))))] s2)"

subsection \<open>Runs of the buffer cache, and the words of its properties\<close>

datatype bop =
  Bget ctx uint uint | Bread ctx uint uint | Bwrite ctx nat | Brelse ctx nat | Bpin nat | Bunpin nat

fun panicked :: "'a res \<Rightarrow> bool" where
  "panicked (Panics msg) = True"
| "panicked _ = False"

fun bdo :: "bop \<Rightarrow> bcache \<Rightarrow> bool \<times> bcache" where
  \<comment> \<open>one call: whether it ended in \<^verbatim>\<open>panic\<close>, and the state it left\<close>
  "bdo (Bget c dv bn) s = (case bget c dv bn s of (r, s') \<Rightarrow> (panicked r, s'))"
| "bdo (Bread c dv bn) s = (case bread c dv bn s of (r, s') \<Rightarrow> (panicked r, s'))"
| "bdo (Bwrite c b) s = (case bwrite c b s of (r, s') \<Rightarrow> (panicked r, s'))"
| "bdo (Brelse c b) s = (case brelse c b s of (r, s') \<Rightarrow> (panicked r, s'))"
| "bdo (Bpin b) s = (False, bpin b s)"
| "bdo (Bunpin b) s = (False, bunpin b s)"

fun brun :: "bop list \<Rightarrow> bcache \<Rightarrow> bcache list" where
  \<comment> \<open>the states a sequence of calls goes through; a \<^verbatim>\<open>panic\<close> ends it\<close>
  "brun [] s = [s]"
| "brun (x # xs) s = s # (case bdo x s of (True, s') \<Rightarrow> [s'] | (False, s') \<Rightarrow> brun xs s')"

fun misses :: "bop \<Rightarrow> bcache \<Rightarrow> bool" where
  \<comment> \<open>the call is a \<open>bget\<close> (alone or inside \<open>bread\<close>) that finds its block in no
      buffer of the home bucket\<close>
  "misses (Bget c dv bn) s = (find (cached s dv bn) (buckets s ! HASH bn) = None)"
| "misses (Bread c dv bn) s = (find (cached s dv bn) (buckets s ! HASH bn) = None)"
| "misses _ s = False"

definition same_block :: "buf \<Rightarrow> buf \<Rightarrow> bool" where
  "same_block x y = (dev x = dev y \<and> blockno x = blockno y)"

definition keeps :: "bcache \<Rightarrow> bcache \<Rightarrow> bool" where
  \<comment> \<open>the pool keeps its size, and every buffer in use is left as it was\<close>
  "keeps s s' = (length (bufs s') = length (bufs s) \<and>
     (\<forall>k. refcnt (bufs s ! k) \<noteq> 0 \<longrightarrow> bufs s' ! k = bufs s ! k))"

definition unused :: "buf list \<Rightarrow> nat \<Rightarrow> bool" where
  "unused bs b = (refcnt (bs ! b) = 0)"

definition idle_in :: "bcache \<Rightarrow> nat \<Rightarrow> bool" where
  \<comment> \<open>bucket \<open>i\<close> holds a buffer nobody uses\<close>
  "idle_in s i = (\<exists>x\<in>set (buckets s ! i). refcnt (bufs s ! x) = 0)"

definition bucket_at :: "nat \<Rightarrow> nat \<Rightarrow> nat" where
  \<comment> \<open>the bucket the loop of the miss path visits in round \<open>k\<close>\<close>
  "bucket_at bid k = (bid + k) mod NBUCKET"

definition passed :: "nat \<Rightarrow> nat \<Rightarrow> nat \<Rightarrow> event list" where
  \<comment> \<open>the lock calls of rounds \<open>k\<close> to \<open>m - 1\<close>, none of which finds a buffer\<close>
  "passed bid k m =
     concat (map (\<lambda>j. if bucket_at bid j \<noteq> bid
                       then [Acquire (Bucket (bucket_at bid j)), Release (Bucket (bucket_at bid j))]
                       else []) [k..<m])"

definition found ::
  "ctx \<Rightarrow> uint \<Rightarrow> uint \<Rightarrow> nat \<Rightarrow> nat \<Rightarrow> nat \<Rightarrow> nat \<Rightarrow> bcache \<Rightarrow> nat res \<times> bcache" where
  \<comment> \<open>what the loop amounts to when rounds \<open>k\<close> to \<open>m - 1\<close> find nothing and round
      \<open>m\<close> finds \<open>b\<close>\<close>
  "found c dv bn bid k m b s =
     (let i = bucket_at bid m in
      reuse c dv bn bid b
        (if i \<noteq> bid then steal b i bid (emit (passed bid k m @ [Acquire (Bucket i)]) s)
         else emit (passed bid k m) s))"

section \<open>The page allocator (kernel/kalloc.c)\<close>

subsection \<open>Data\<close>

text \<open>
  Physical addresses are \<^verbatim>\<open>uint64\<close>; they are natural numbers here, and no sum the code
  forms leaves 64 bits as long as \<^verbatim>\<open>PHYSTOP\<close> does not. memlayout.h and riscv.h are not
  among the sources: the address of \<^verbatim>\<open>end\<close>, \<^verbatim>\<open>PHYSTOP\<close> and the bit \<^verbatim>\<open>PTE_F\<close> are
  taken as given, \<^verbatim>\<open>PGSIZE\<close> is the 4096 of the file's first comment, the rounding macros
  clear the low twelve bits.
\<close>

record config =
  kend :: nat
  PHYSTOP :: nat
  PTE_F :: "64 word"

definition PGSIZE :: nat where
  "PGSIZE = 4096"

definition PGROUNDUP :: "nat \<Rightarrow> nat" where
  "PGROUNDUP a = (a + PGSIZE - 1) div PGSIZE * PGSIZE"

definition PGROUNDDOWN :: "nat \<Rightarrow> nat" where
  "PGROUNDDOWN a = a div PGSIZE * PGSIZE"

text \<open>
  \<^verbatim>\<open>ref.cnt\<close>, \<^verbatim>\<open>kmem.freelist\<close> and the physical memory, byte by byte. A free page holds
  the \<^verbatim>\<open>next\<close> pointer of its \<^verbatim>\<open>struct run\<close> in its first eight bytes, low byte first.
\<close>

record kstate =
  cnt :: "nat \<Rightarrow> 32 word"
  freelist :: nat
  mem :: "nat \<Rightarrow> byte"

definition ncnt :: "config \<Rightarrow> nat" where
  \<comment> \<open>the length of \<^verbatim>\<open>ref.cnt\<close>\<close>
  "ncnt cf = PHYSTOP cf div PGSIZE"

definition memset :: "(nat \<Rightarrow> byte) \<Rightarrow> nat \<Rightarrow> byte \<Rightarrow> nat \<Rightarrow> (nat \<Rightarrow> byte)" where
  "memset m a c n = (\<lambda>x. if a \<le> x \<and> x < a + n then c else m x)"

definition memmove :: "(nat \<Rightarrow> byte) \<Rightarrow> nat \<Rightarrow> nat \<Rightarrow> nat \<Rightarrow> (nat \<Rightarrow> byte)" where
  "memmove m dst src n = (\<lambda>x. if dst \<le> x \<and> x < dst + n then m (src + (x - dst)) else m x)"

definition store64 :: "(nat \<Rightarrow> byte) \<Rightarrow> nat \<Rightarrow> nat \<Rightarrow> (nat \<Rightarrow> byte)" where
  "store64 m a v =
     (\<lambda>x. if a \<le> x \<and> x < a + 8 then of_nat (v div 256 ^ (x - a) mod 256) else m x)"

definition load64 :: "(nat \<Rightarrow> byte) \<Rightarrow> nat \<Rightarrow> nat" where
  "load64 m a = (\<Sum>k\<leftarrow>[0..<8]. unat (m (a + k)) * 256 ^ k)"

subsection \<open>kfree, kalloc, the reference counts\<close>

definition bad_pa :: "config \<Rightarrow> nat \<Rightarrow> bool" where
  \<comment> \<open>the test that opens \<open>kfree\<close> and \<open>kaddrefcnt\<close>\<close>
  "bad_pa cf pa = (pa mod PGSIZE \<noteq> 0 \<or> pa < kend cf \<or> pa \<ge> PHYSTOP cf)"

definition kfree :: "config \<Rightarrow> nat \<Rightarrow> kstate \<Rightarrow> unit res \<times> kstate" where
  "kfree cf pa s =
     (if bad_pa cf pa then (Panics ''kfree'', s)
      else if \<not> pa div PGSIZE < ncnt cf then (Undefined, s)
      else
        let s1 = s\<lparr>cnt := (cnt s)(pa div PGSIZE := cnt s (pa div PGSIZE) - 1)\<rparr> in
        if cnt s1 (pa div PGSIZE) = 0
        then
          let s2 = s1\<lparr>mem := memset (mem s1) pa 1 PGSIZE\<rparr>;
              s3 = s2\<lparr>mem := store64 (mem s2) pa (freelist s2)\<rparr>
          in (Returns (), s3\<lparr>freelist := pa\<rparr>)
        else (Returns (), s1))"

definition kalloc :: "config \<Rightarrow> kstate \<Rightarrow> nat res \<times> kstate" where
  \<comment> \<open>the null pointer is 0\<close>
  "kalloc cf s =
     (let r = freelist s in
      if r \<noteq> 0
      then
        let s1 = s\<lparr>freelist := load64 (mem s) r\<rparr> in
        if \<not> r div PGSIZE < ncnt cf then (Undefined, s1)
        else
          let s2 = s1\<lparr>cnt := (cnt s1)(r div PGSIZE := 1)\<rparr>
          in (Returns r, s2\<lparr>mem := memset (mem s2) r 5 PGSIZE\<rparr>)
      else (Returns r, s))"

definition krefcnt :: "config \<Rightarrow> nat \<Rightarrow> kstate \<Rightarrow> (32 word) res" where
  "krefcnt cf pa s =
     (if \<not> pa div PGSIZE < ncnt cf then Undefined else Returns (cnt s (pa div PGSIZE)))"

definition kaddrefcnt :: "config \<Rightarrow> nat \<Rightarrow> kstate \<Rightarrow> int res \<times> kstate" where
  "kaddrefcnt cf pa s =
     (if bad_pa cf pa then (Returns (- 1), s)
      else if \<not> pa div PGSIZE < ncnt cf then (Undefined, s)
      else (Returns 0, s\<lparr>cnt := (cnt s)(pa div PGSIZE := cnt s (pa div PGSIZE) + 1)\<rparr>))"

subsection \<open>kinit\<close>

function freerange_loop :: "config \<Rightarrow> nat \<Rightarrow> nat \<Rightarrow> kstate \<Rightarrow> unit res \<times> kstate" where
  \<comment> \<open>the loop of \<open>freerange\<close> at \<open>p\<close>\<close>
  "freerange_loop cf p pa_end s =
     (if p + PGSIZE \<le> pa_end
      then
        if \<not> p div PGSIZE < ncnt cf then (Undefined, s)
        else
          case kfree cf p (s\<lparr>cnt := (cnt s)(p div PGSIZE := 1)\<rparr>) of
            (Returns u, s1) \<Rightarrow> freerange_loop cf (p + PGSIZE) pa_end s1
          | r \<Rightarrow> r
      else (Returns (), s))"
  by pat_completeness auto
termination
  by (relation "measure (\<lambda>(cf, p, pa_end, s). pa_end - p)") (auto simp: PGSIZE_def)

definition freerange :: "config \<Rightarrow> nat \<Rightarrow> nat \<Rightarrow> kstate \<Rightarrow> unit res \<times> kstate" where
  "freerange cf pa_start pa_end s = freerange_loop cf (PGROUNDUP pa_start) pa_end s"

definition boot :: "(nat \<Rightarrow> byte) \<Rightarrow> kstate" where
  \<comment> \<open>the zeroed globals over whatever the memory holds\<close>
  "boot m = \<lparr>cnt = (\<lambda>_. 0), freelist = 0, mem = m\<rparr>"

definition kinit :: "config \<Rightarrow> kstate \<Rightarrow> unit res \<times> kstate" where
  "kinit cf s = freerange cf (kend cf) (PHYSTOP cf) s"

subsection \<open>The page table, as cowalloc meets it\<close>

text \<open>
  Modelled from the spec: kernel/vm.c is missing. A page table gives, for a virtual
  page, the leaf entry \<open>walk\<close> finds, if the tables down to it exist. \<open>walk_addr\<close>:
  ``the physical address of the page mapped at va, or 0 if not
  mapped/valid/user-accessible''. \<open>mappages\<close>: ``installs mappings; fails if any entry
  in the range is already valid''. The entry layout is that of Sv39: the flags in the
  low ten bits, V, W and U at bits 0, 2 and 4, the page number from bit 10 up.
\<close>

type_synonym pte = "64 word"
type_synonym pagetable = "nat \<Rightarrow> pte option"

definition PTE_V :: pte where "PTE_V = 1"
definition PTE_W :: pte where "PTE_W = 4"
definition PTE_U :: pte where "PTE_U = 16"

definition PTE2PA :: "pte \<Rightarrow> nat" where
  "PTE2PA e = unat (push_bit 12 (drop_bit 10 e))"

definition PA2PTE :: "nat \<Rightarrow> pte" where
  "PA2PTE pa = push_bit 10 (drop_bit 12 (of_nat pa))"

definition PTE_FLAGS :: "pte \<Rightarrow> pte" where
  "PTE_FLAGS e = e AND 1023"

definition walk :: "pagetable \<Rightarrow> nat \<Rightarrow> pte option" where
  "walk pt va = pt (PGROUNDDOWN va)"

definition walkaddr :: "pagetable \<Rightarrow> nat \<Rightarrow> nat" where
  "walkaddr pt va =
     (case walk pt va of
        None \<Rightarrow> 0
      | Some e \<Rightarrow> if e AND PTE_V = 0 then 0 else if e AND PTE_U = 0 then 0 else PTE2PA e)"

fun install :: "pagetable \<Rightarrow> nat list \<Rightarrow> nat \<Rightarrow> pte \<Rightarrow> pagetable option" where
  "install pt [] pa perm = Some pt"
| "install pt (a # as) pa perm =
     (case pt a of
        Some e \<Rightarrow>
          if e AND PTE_V \<noteq> 0 then None
          else install (pt(a \<mapsto> PA2PTE pa OR perm OR PTE_V)) as (pa + PGSIZE) perm
      | None \<Rightarrow> install (pt(a \<mapsto> PA2PTE pa OR perm OR PTE_V)) as (pa + PGSIZE) perm)"

definition mappages :: "pagetable \<Rightarrow> nat \<Rightarrow> nat \<Rightarrow> nat \<Rightarrow> pte \<Rightarrow> pagetable option" where
  \<comment> \<open>\<open>None\<close> is the failure, \<open>Some\<close> the table with the mappings installed\<close>
  "mappages pt va sz pa perm =
     (let a = PGROUNDDOWN va; last = PGROUNDDOWN (va + sz - 1)
      in install pt (map (\<lambda>k. a + k * PGSIZE) [0..<(last - a) div PGSIZE + 1]) pa perm)"

subsection \<open>cowpage, cowalloc\<close>

definition cowpage :: "config \<Rightarrow> nat \<Rightarrow> pagetable \<Rightarrow> nat \<Rightarrow> int" where
  \<comment> \<open>\<open>maxva\<close> is \<^verbatim>\<open>MAXVA\<close> of riscv.h\<close>
  "cowpage cf maxva pt va =
     (if va \<ge> maxva then - 1
      else case walk pt va of
             None \<Rightarrow> - 1
           | Some e \<Rightarrow> if e AND PTE_V = 0 then - 1 else if e AND PTE_F cf \<noteq> 0 then 0 else - 1)"

text \<open>
  \<open>cowalloc\<close> with its collaborator \<open>mp\<close> in the place of \<open>mappages\<close>: a call of \<open>mp\<close>
  that fails leaves the table as it found it. The result is the pointer returned
  (0 for null), the page table and the allocator's state.
\<close>

definition cowalloc ::
  "config \<Rightarrow> (pagetable \<Rightarrow> nat \<Rightarrow> nat \<Rightarrow> nat \<Rightarrow> pte \<Rightarrow> pagetable option) \<Rightarrow>
   pagetable \<Rightarrow> nat \<Rightarrow> kstate \<Rightarrow> nat res \<times> pagetable \<times> kstate" where
  "cowalloc cf mp pt va s =
     (if va mod PGSIZE \<noteq> 0 then (Returns 0, pt, s)
      else
        let pa = walkaddr pt va in
        if pa = 0 then (Returns 0, pt, s)
        else
          case walk pt va of
            None \<Rightarrow> (Undefined, pt, s)
          | Some e \<Rightarrow>
              (case krefcnt cf pa s of
                 Returns c \<Rightarrow>
                   if c = 1
                   then (Returns pa, pt(va \<mapsto> (e OR PTE_W) AND NOT (PTE_F cf)), s)
                   else
                     (case kalloc cf s of
                        (Returns m, s1) \<Rightarrow>
                          if m = 0 then (Returns 0, pt, s1)
                          else
                            let s2 = s1\<lparr>mem := memmove (mem s1) m pa PGSIZE\<rparr>;
                                e1 = e AND NOT PTE_V;
                                pt1 = pt(va \<mapsto> e1)
                            in
                              (case mp pt1 va PGSIZE m
                                      ((PTE_FLAGS e1 OR PTE_W) AND NOT (PTE_F cf)) of
                                 None \<Rightarrow>
                                   (case kfree cf m s2 of
                                      (Returns u, s3) \<Rightarrow>
                                        (Returns 0, pt1(va \<mapsto> e1 OR PTE_V), s3)
                                    | (r, s3) \<Rightarrow> (carry r, pt1, s3))
                               | Some pt2 \<Rightarrow>
                                   (case kfree cf (PGROUNDDOWN pa) s2 of
                                      (Returns u, s3) \<Rightarrow> (Returns m, pt2, s3)
                                    | (r, s3) \<Rightarrow> (carry r, pt2, s3)))
                      | (r, s1) \<Rightarrow> (r, pt, s1))
               | r \<Rightarrow> (Undefined, pt, s)))"

subsection \<open>The free list, runs of the allocator, and the words of its properties\<close>

inductive reach :: "(nat \<Rightarrow> byte) \<Rightarrow> nat \<Rightarrow> nat \<Rightarrow> bool" for m :: "nat \<Rightarrow> byte" where
  \<comment> \<open>\<open>a\<close> is met from the pointer \<open>p\<close> along \<^verbatim>\<open>next\<close> before null\<close>
  here: "p \<noteq> 0 \<Longrightarrow> reach m p p"
| further: "p \<noteq> 0 \<Longrightarrow> reach m (load64 m p) a \<Longrightarrow> reach m p a"

definition on_freelist :: "kstate \<Rightarrow> nat \<Rightarrow> bool" where
  "on_freelist s a = reach (mem s) (freelist s) a"

fun chain :: "(nat \<Rightarrow> byte) \<Rightarrow> nat \<Rightarrow> nat list \<Rightarrow> bool" where
  \<comment> \<open>the pages from the pointer \<open>p\<close> along \<^verbatim>\<open>next\<close> to null are \<open>xs\<close>, in this order\<close>
  "chain m p [] = (p = 0)"
| "chain m p (x # xs) = (p = x \<and> x \<noteq> 0 \<and> chain m (load64 m x) xs)"

definition cfg_ok :: "config \<Rightarrow> bool" where
  \<comment> \<open>the kernel ends above address 0 and below \<^verbatim>\<open>PHYSTOP\<close>, a page boundary that fits
      64 bits\<close>
  "cfg_ok cf =
     (0 < kend cf \<and> kend cf \<le> PHYSTOP cf \<and> PHYSTOP cf mod PGSIZE = 0 \<and> PHYSTOP cf < 2 ^ 64)"

definition managed :: "config \<Rightarrow> nat \<Rightarrow> bool" where
  \<comment> \<open>the address of a page the allocator owns\<close>
  "managed cf a = (a mod PGSIZE = 0 \<and> kend cf \<le> a \<and> a < PHYSTOP cf)"

definition P1 :: "config \<Rightarrow> kstate \<Rightarrow> bool" where
  \<comment> \<open>a page the allocator owns is on the free list exactly when its count is 0\<close>
  "P1 cf s = (\<forall>a. managed cf a \<longrightarrow> (on_freelist s a \<longleftrightarrow> cnt s (a div PGSIZE) = 0))"

datatype kop = Kalloc | Kfree nat | Kaddrefcnt nat

fun kdo :: "config \<Rightarrow> kop \<Rightarrow> kstate \<Rightarrow> kstate" where
  "kdo cf Kalloc s = snd (kalloc cf s)"
| "kdo cf (Kfree pa) s = snd (kfree cf pa s)"
| "kdo cf (Kaddrefcnt pa) s = snd (kaddrefcnt cf pa s)"

fun krun :: "config \<Rightarrow> kop list \<Rightarrow> kstate \<Rightarrow> kstate" where
  "krun cf [] s = s"
| "krun cf (x # xs) s = krun cf xs (kdo cf x s)"

fun accepted :: "config \<Rightarrow> kop \<Rightarrow> bool" where
  \<comment> \<open>the argument passes the test of the function itself\<close>
  "accepted cf Kalloc = True"
| "accepted cf (Kfree pa) = (\<not> bad_pa cf pa)"
| "accepted cf (Kaddrefcnt pa) = (\<not> bad_pa cf pa)"

fun owned :: "config \<Rightarrow> kop \<Rightarrow> kstate \<Rightarrow> bool" where
  \<comment> \<open>the argument passes the test, and the page is one that somebody holds\<close>
  "owned cf Kalloc s = True"
| "owned cf (Kfree pa) s = (\<not> bad_pa cf pa \<and> 0 <s cnt s (pa div PGSIZE))"
| "owned cf (Kaddrefcnt pa) s = (\<not> bad_pa cf pa \<and> 0 <s cnt s (pa div PGSIZE))"

fun owned_run :: "config \<Rightarrow> kop list \<Rightarrow> kstate \<Rightarrow> bool" where
  "owned_run cf [] s = True"
| "owned_run cf (x # xs) s = (owned cf x s \<and> owned_run cf xs (kdo cf x s))"

definition kinv :: "config \<Rightarrow> kstate \<Rightarrow> nat list \<Rightarrow> bool" where
  \<comment> \<open>the free list is \<open>xs\<close>: pages the allocator owns, each once, those with count 0\<close>
  "kinv cf s xs =
     (chain (mem s) (freelist s) xs \<and> distinct xs \<and> (\<forall>x\<in>set xs. managed cf x) \<and>
      (\<forall>a. managed cf a \<longrightarrow> (a \<in> set xs \<longleftrightarrow> cnt s (a div PGSIZE) = 0)))"

definition filled :: "config \<Rightarrow> nat \<Rightarrow> kstate \<Rightarrow> nat list \<Rightarrow> bool" where
  \<comment> \<open>the state of \<open>freerange\<close> when its loop stands at \<open>p\<close>\<close>
  "filled cf p s xs =
     (chain (mem s) (freelist s) xs \<and> distinct xs \<and> set xs = {a. managed cf a \<and> a < p} \<and>
      cnt s = (\<lambda>_. 0))"

section \<open>Example states\<close>

definition buf0 :: buf where
  "buf0 = \<lparr>valid = 0, dev = 0, blockno = 0, lock = None, refcnt = 0, timestamp = 0,
     data = []\<rparr>"

definition pool1 :: bcache where
  \<comment> \<open>one buffer, never used, in bucket 0\<close>
  "pool1 = \<lparr>bufs = [buf0], buckets = [[0], []], disk = (\<lambda>_. []), trace = []\<rparr>"

definition ctx0 :: ctx where
  \<comment> \<open>process 7 at tick 9, holding no spin lock\<close>
  "ctx0 = \<lparr>cpid = 7, cticks = 9, cholding = (\<lambda>_. False)\<rparr>"

definition pool2 :: bcache where
  \<comment> \<open>blocks 0 and 2 of device 0, both released, block 0 longer ago; bucket 1 is empty\<close>
  "pool2 =
     \<lparr>bufs = [buf0\<lparr>valid := 1, timestamp := 5\<rparr>,
              buf0\<lparr>valid := 1, blockno := 2, timestamp := 7\<rparr>],
      buckets = [[1, 0], []], disk = (\<lambda>_. []), trace = []\<rparr>"

definition busy2 :: bcache where
  \<comment> \<open>the same blocks, both held: by process 3 and by process 4\<close>
  "busy2 =
     \<lparr>bufs = [buf0\<lparr>valid := 1, timestamp := 5, refcnt := 1, lock := Some 3\<rparr>,
              buf0\<lparr>valid := 1, blockno := 2, timestamp := 7, refcnt := 1, lock := Some 4\<rparr>],
      buckets = [[1, 0], []], disk = (\<lambda>_. []), trace = []\<rparr>"

definition half2 :: bcache where
  \<comment> \<open>block 0 held by process 3, block 2 released\<close>
  "half2 =
     \<lparr>bufs = [buf0\<lparr>valid := 1, timestamp := 5, refcnt := 1, lock := Some 3\<rparr>,
              buf0\<lparr>valid := 1, blockno := 2, timestamp := 7\<rparr>],
      buckets = [[1, 0], []], disk = (\<lambda>_. []), trace = []\<rparr>"

definition cf0 :: config where
  "cf0 = \<lparr>kend = 4096, PHYSTOP = 12288, PTE_F = 256\<rparr>"

definition pt0 :: pagetable where
  \<comment> \<open>virtual page 0 mapped to the page at 8192 with V, R, U and bit 8\<close>
  "pt0 = [0 \<mapsto> 2323]"

definition shared0 :: kstate where
  \<comment> \<open>after \<open>kinit\<close>: the page at 8192 allocated and shared by two holders\<close>
  "shared0 = krun cf0 [Kalloc, Kaddrefcnt 8192] (snd (kinit cf0 (boot (\<lambda>_. 0))))"

definition sole0 :: kstate where
  \<comment> \<open>after \<open>kinit\<close>: the page at 8192 allocated, one holder\<close>
  "sole0 = krun cf0 [Kalloc] (snd (kinit cf0 (boot (\<lambda>_. 0))))"

definition full0 :: kstate where
  \<comment> \<open>after \<open>kinit\<close>: both pages allocated, the page at 8192 shared\<close>
  "full0 = krun cf0 [Kalloc, Kalloc, Kaddrefcnt 8192] (snd (kinit cf0 (boot (\<lambda>_. 0))))"

section \<open>Properties of the buffer cache\<close>

subsection \<open>Projections\<close>

lemma bufs_emit: "bufs (emit es s) = bufs s"
  by (simp add: emit_def)

lemma bufs_upd: "bufs (upd b f s) = (bufs s)[b := f (bufs s ! b)]"
  by (simp add: upd_def)

lemma buckets_emit: "buckets (emit es s) = buckets s"
  by (simp add: emit_def)

lemma disk_emit: "disk (emit es s) = disk s"
  by (simp add: emit_def)

lemma trace_emit: "trace (emit es s) = trace s @ es"
  by (simp add: emit_def)

lemma buckets_upd: "buckets (upd b f s) = buckets s"
  by (simp add: upd_def)

lemma disk_upd: "disk (upd b f s) = disk s"
  by (simp add: upd_def)

lemma trace_upd: "trace (upd b f s) = trace s"
  by (simp add: upd_def)

lemma emit_emit: "emit es (emit es' s) = emit (es' @ es) s"
  by (simp add: emit_def)

lemma emit_Nil: "emit [] s = s"
  by (simp add: emit_def)

lemmas proj_simps =
  bufs_emit bufs_upd buckets_emit buckets_upd disk_emit disk_upd trace_emit trace_upd

lemma bufs_steal: "bufs (steal b i bid s) = bufs s"
  by (simp add: steal_def Let_def emit_def)

lemma disk_steal: "disk (steal b i bid s) = disk s"
  by (simp add: steal_def Let_def emit_def)

lemma buckets_steal:
  "i \<noteq> bid \<Longrightarrow> buckets (steal b i bid s) =
     (buckets s)[i := removeAll b (buckets s ! i), bid := b # buckets s ! bid]"
  by (simp add: steal_def Let_def emit_def)

lemma cached_emit: "cached (emit es s) = cached s"
  by (simp add: cached_def [abs_def] proj_simps)

subsection \<open>The inner loop of the miss path\<close>

lemma scan_Some_acc:
  "unused bs a \<Longrightarrow>
   \<exists>b. scan bs xs (Some a) = Some b \<and> unused bs b \<and> (b = a \<or> b \<in> set xs) \<and>
     timestamp (bs ! b) \<le> timestamp (bs ! a) \<and>
     (\<forall>x\<in>set xs. unused bs x \<longrightarrow> timestamp (bs ! b) \<le> timestamp (bs ! x))"
proof (induction xs arbitrary: a)
  case Nil
  then show ?case by simp
next
  case (Cons x xs)
  show ?case
  proof (cases "refcnt (bs ! x) = 0 \<and> timestamp (bs ! x) < timestamp (bs ! a)")
    case True
    then have "unused bs x" by (simp add: unused_def)
    from Cons.IH [OF this] True show ?thesis
      by (auto simp: unused_def)
  next
    case False
    from Cons.IH [OF Cons.prems] False show ?thesis
      by (auto simp: unused_def)
  qed
qed

lemma scan_None_iff: "scan bs xs None = None \<longleftrightarrow> (\<forall>x\<in>set xs. \<not> unused bs x)"
proof (induction xs)
  case Nil
  then show ?case by simp
next
  case (Cons x xs)
  show ?case
  proof (cases "unused bs x")
    case True
    with scan_Some_acc [OF True, of xs] show ?thesis
      by (auto simp: unused_def)
  next
    case False
    with Cons show ?thesis by (simp add: unused_def)
  qed
qed

lemma scan_Some:
  assumes "scan bs xs None = Some b"
  shows "b \<in> set xs \<and> unused bs b \<and>
         (\<forall>x\<in>set xs. unused bs x \<longrightarrow> timestamp (bs ! b) \<le> timestamp (bs ! x))"
  using assms
proof (induction xs)
  case Nil
  then show ?case by simp
next
  case (Cons x xs)
  show ?case
  proof (cases "unused bs x")
    case True
    with scan_Some_acc [OF True, of xs] Cons.prems show ?thesis
      by (auto simp: unused_def)
  next
    case False
    with Cons show ?thesis by (simp add: unused_def)
  qed
qed

subsection \<open>The order of the buckets\<close>

lemma HASH_less: "HASH bn < NBUCKET"
  by (simp add: HASH_def NBUCKET_def)

lemma bucket_at_less: "bucket_at bid k < NBUCKET"
  by (simp add: bucket_at_def NBUCKET_def)

lemma bucket_at_0: "bid < NBUCKET \<Longrightarrow> bucket_at bid 0 = bid"
  by (simp add: bucket_at_def)

lemma bucket_at_Suc: "Suc (bucket_at bid k) mod NBUCKET = bucket_at bid (Suc k)"
  by (simp add: bucket_at_def mod_Suc_eq)

lemma bucket_at_other:
  assumes "bid < NBUCKET" "0 < k" "k < NBUCKET"
  shows "bucket_at bid k \<noteq> bid"
proof (cases "bid + k < NBUCKET")
  case True
  with assms show ?thesis by (simp add: bucket_at_def)
next
  case False
  then have "(bid + k) mod NBUCKET = (bid + k - NBUCKET) mod NBUCKET"
    by (simp add: le_mod_geq)
  also have "\<dots> = bid + k - NBUCKET"
    using assms False by simp
  finally show ?thesis
    using assms False by (simp add: bucket_at_def)
qed

lemma bucket_at_home: "k < NBUCKET \<Longrightarrow> bucket_at (HASH bn) k = HASH bn \<longleftrightarrow> k = 0"
  using bucket_at_other [OF HASH_less, of k bn] bucket_at_0 [OF HASH_less, of bn]
  by (cases "k = 0") auto

lemma bucket_at_onto:
  assumes "bid < NBUCKET" "i < NBUCKET"
  shows "\<exists>k<NBUCKET. bucket_at bid k = i"
proof (cases "bid \<le> i")
  case True
  with assms show ?thesis
    by (intro exI [of _ "i - bid"]) (simp add: bucket_at_def)
next
  case False
  have "(bid + (NBUCKET + i - bid)) mod NBUCKET = (i + NBUCKET) mod NBUCKET"
    using assms False by (simp add: add.commute)
  also have "\<dots> = i"
    using assms by simp
  finally show ?thesis
    using assms False by (intro exI [of _ "NBUCKET + i - bid"]) (simp add: bucket_at_def)
qed

lemma passed_same: "passed bid k k = []"
  by (simp add: passed_def)

lemma passed_step:
  "k < m \<Longrightarrow> passed bid k m =
     (if bucket_at bid k \<noteq> bid
      then [Acquire (Bucket (bucket_at bid k)), Release (Bucket (bucket_at bid k))] else [])
     @ passed bid (Suc k) m"
  by (simp add: passed_def upt_conv_Cons)

subsection \<open>The loop of the miss path\<close>

declare recycle.simps [simp del]

lemma recycle_stop:
  "\<not> cycle < NBUCKET \<Longrightarrow> recycle c dv bn bid i cycle s = (Panics ''bget: no buffers'', s)"
  by (subst recycle.simps) simp

lemma recycle_skip:
  assumes "cycle < NBUCKET" "i \<noteq> bid \<and> cholding c i"
  shows "recycle c dv bn bid i cycle s = recycle c dv bn bid ((i + 1) mod NBUCKET) (cycle + 1) s"
  using assms by (subst recycle.simps) simp

lemma recycle_none:
  assumes "cycle < NBUCKET" "\<not> (i \<noteq> bid \<and> cholding c i)"
      and "scan (bufs s) (buckets s ! i) None = None"
  shows "recycle c dv bn bid i cycle s =
           recycle c dv bn bid ((i + 1) mod NBUCKET) (cycle + 1)
             (if i \<noteq> bid then emit [Acquire (Bucket i), Release (Bucket i)] s else s)"
  using assms by (subst recycle.simps) (auto simp: Let_def proj_simps emit_emit)

lemma recycle_some:
  assumes "cycle < NBUCKET" "\<not> (i \<noteq> bid \<and> cholding c i)"
      and "scan (bufs s) (buckets s ! i) None = Some b"
  shows "recycle c dv bn bid i cycle s =
           reuse c dv bn bid b
             (if i \<noteq> bid then steal b i bid (emit [Acquire (Bucket i)] s) else s)"
  using assms by (subst recycle.simps) (auto simp: Let_def proj_simps)

lemma recycle_found:
  assumes "\<forall>i. \<not> cholding c i"
      and "k \<le> m" "m < NBUCKET"
      and "\<forall>j. k \<le> j \<and> j < m \<longrightarrow> scan (bufs s) (buckets s ! bucket_at bid j) None = None"
      and "scan (bufs s) (buckets s ! bucket_at bid m) None = Some b"
  shows "recycle c dv bn bid (bucket_at bid k) k s = found c dv bn bid k m b s"
  using assms(2-)
proof (induction "m - k" arbitrary: k s)
  case 0
  then have km: "k = m" by simp
  have "recycle c dv bn bid (bucket_at bid m) m s =
          reuse c dv bn bid b
             (if bucket_at bid m \<noteq> bid
              then steal b (bucket_at bid m) bid (emit [Acquire (Bucket (bucket_at bid m))] s)
              else s)"
    using 0 assms(1) by (intro recycle_some) simp_all
  then show ?case
    by (simp add: km found_def passed_same Let_def emit_Nil)
next
  case (Suc n)
  then have km: "k < m" and n: "n = m - Suc k" by simp_all
  have none: "scan (bufs s) (buckets s ! bucket_at bid k) None = None"
    using Suc.prems km by simp
  let ?s = "if bucket_at bid k \<noteq> bid
            then emit [Acquire (Bucket (bucket_at bid k)), Release (Bucket (bucket_at bid k))] s
            else s"
  have IH: "recycle c dv bn bid (bucket_at bid (Suc k)) (Suc k) ?s
              = found c dv bn bid (Suc k) m b ?s"
    using Suc.prems km by (intro Suc.hyps(1) [OF n]) (auto simp: proj_simps)
  have "recycle c dv bn bid (bucket_at bid k) k s
          = recycle c dv bn bid ((bucket_at bid k + 1) mod NBUCKET) (k + 1) ?s"
    using km Suc.prems(2) none assms(1) by (intro recycle_none) simp_all
  then have "recycle c dv bn bid (bucket_at bid k) k s
          = recycle c dv bn bid (bucket_at bid (Suc k)) (Suc k) ?s"
    by (simp add: bucket_at_Suc)
  also note IH
  also have "found c dv bn bid (Suc k) m b ?s = found c dv bn bid k m b s"
    using km by (simp add: found_def passed_step [OF km] emit_emit Let_def)
  finally show ?case .
qed

lemma recycle_panic:
  assumes "\<forall>i. \<not> cholding c i"
      and "k \<le> NBUCKET"
      and "\<forall>j. k \<le> j \<and> j < NBUCKET \<longrightarrow>
             scan (bufs s) (buckets s ! bucket_at bid j) None = None"
  shows "recycle c dv bn bid (bucket_at bid k) k s =
           (Panics ''bget: no buffers'', emit (passed bid k NBUCKET) s)"
  using assms(2-)
proof (induction "NBUCKET - k" arbitrary: k s)
  case 0
  then have "k = NBUCKET" by simp
  then show ?case
    by (simp add: recycle_stop passed_same emit_Nil)
next
  case (Suc n)
  then have km: "k < NBUCKET" and n: "n = NBUCKET - Suc k" by simp_all
  have none: "scan (bufs s) (buckets s ! bucket_at bid k) None = None"
    using Suc.prems km by simp
  let ?s = "if bucket_at bid k \<noteq> bid
            then emit [Acquire (Bucket (bucket_at bid k)), Release (Bucket (bucket_at bid k))] s
            else s"
  have IH: "recycle c dv bn bid (bucket_at bid (Suc k)) (Suc k) ?s
              = (Panics ''bget: no buffers'', emit (passed bid (Suc k) NBUCKET) ?s)"
    using Suc.prems km by (intro Suc.hyps(1) [OF n]) (auto simp: proj_simps)
  have "recycle c dv bn bid (bucket_at bid k) k s
          = recycle c dv bn bid ((bucket_at bid k + 1) mod NBUCKET) (k + 1) ?s"
    using km none assms(1) by (intro recycle_none) simp_all
  then have "recycle c dv bn bid (bucket_at bid k) k s
          = recycle c dv bn bid (bucket_at bid (Suc k)) (Suc k) ?s"
    by (simp add: bucket_at_Suc)
  also note IH
  also have "emit (passed bid (Suc k) NBUCKET) ?s = emit (passed bid k NBUCKET) s"
    using km by (simp add: passed_step [OF km] emit_emit)
  finally show ?case .
qed

subsection \<open>What the chosen buffer becomes\<close>

lemma reuse_eq:
  "reuse c dv bn bid b s =
     (if lock (bufs s ! b) = None then Returns b else Sleeps b,
      emit [Acquire Tickslock, Stamp b, Release Tickslock, Release (Bucket bid), AcquireSleep b]
        (s\<lparr>bufs := (bufs s)[b := (bufs s ! b)\<lparr>blockno := bn, dev := dv, valid := 0,
              refcnt := 1, timestamp := cticks c,
              lock := (if lock (bufs s ! b) = None then Some (cpid c)
                       else lock (bufs s ! b))\<rparr>]\<rparr>))"
proof (cases "b < length (bufs s)")
  case True
  then show ?thesis
    by (simp add: reuse_def Let_def stamp_def acquiresleep_def emit_def upd_def
          split: option.splits)
next
  case False
  then show ?thesis
    by (simp add: reuse_def Let_def stamp_def acquiresleep_def emit_def upd_def
          list_update_beyond split: option.splits)
qed

lemma reuse_bufs:
  "bufs (snd (reuse c dv bn bid b s)) =
     (bufs s)[b := (bufs s ! b)\<lparr>blockno := bn, dev := dv, valid := 0, refcnt := 1,
        timestamp := cticks c,
        lock := (if lock (bufs s ! b) = None then Some (cpid c) else lock (bufs s ! b))\<rparr>]"
  by (simp add: reuse_eq proj_simps)

lemma found_fst:
  "fst (found c dv bn bid k m b s) = (if lock (bufs s ! b) = None then Returns b else Sleeps b)"
  by (simp add: found_def Let_def reuse_eq bufs_steal proj_simps)

lemma found_bufs:
  "bufs (snd (found c dv bn bid k m b s)) =
     (bufs s)[b := (bufs s ! b)\<lparr>blockno := bn, dev := dv, valid := 0, refcnt := 1,
        timestamp := cticks c,
        lock := (if lock (bufs s ! b) = None then Some (cpid c) else lock (bufs s ! b))\<rparr>]"
  by (simp add: found_def Let_def reuse_eq bufs_steal proj_simps)

lemma found_buckets:
  "buckets (snd (found c dv bn bid k m b s)) =
     (if bucket_at bid m = bid then buckets s
      else (buckets s)[bucket_at bid m := removeAll b (buckets s ! bucket_at bid m),
                       bid := b # buckets s ! bid])"
  by (simp add: found_def Let_def reuse_eq buckets_steal proj_simps)

lemma found_disk: "disk (snd (found c dv bn bid k m b s)) = disk s"
  by (simp add: found_def Let_def reuse_eq disk_steal proj_simps)

subsection \<open>bget\<close>

lemma bget_miss:
  "find (cached s dv bn) (buckets s ! HASH bn) = None \<Longrightarrow>
   bget c dv bn s =
     recycle c dv bn (HASH bn) (bucket_at (HASH bn) 0) 0 (emit [Acquire (Bucket (HASH bn))] s)"
  by (simp add: bget_def Let_def cached_emit proj_simps bucket_at_0 HASH_less)

lemma bget_hit:
  "find (cached s dv bn) (buckets s ! HASH bn) = Some b \<Longrightarrow>
   bget c dv bn s =
     acquiresleep (cpid c) b
       (emit [Release (Bucket (HASH bn))]
         (stamp c b (upd b (\<lambda>x. x\<lparr>refcnt := refcnt x + 1\<rparr>)
            (emit [Acquire (Bucket (HASH bn))] s))))"
  by (simp add: bget_def Let_def cached_emit proj_simps)

lemma bget_miss_found:
  assumes miss: "find (cached s dv bn) (buckets s ! HASH bn) = None"
      and nohold: "\<forall>i. \<not> cholding c i"
      and m: "m < NBUCKET"
      and before: "\<forall>j<m. \<not> idle_in s (bucket_at (HASH bn) j)"
      and here: "idle_in s (bucket_at (HASH bn) m)"
  shows "\<exists>b. scan (bufs s) (buckets s ! bucket_at (HASH bn) m) None = Some b \<and>
             bget c dv bn s =
               found c dv bn (HASH bn) 0 m b (emit [Acquire (Bucket (HASH bn))] s)"
proof -
  let ?bid = "HASH bn"
  let ?s0 = "emit [Acquire (Bucket ?bid)] s"
  from here have "scan (bufs s) (buckets s ! bucket_at ?bid m) None \<noteq> None"
    by (simp add: scan_None_iff unused_def idle_in_def)
  then obtain b where b: "scan (bufs s) (buckets s ! bucket_at ?bid m) None = Some b"
    by auto
  have none: "\<forall>j. 0 \<le> j \<and> j < m \<longrightarrow>
      scan (bufs ?s0) (buckets ?s0 ! bucket_at ?bid j) None = None"
    using before by (simp add: scan_None_iff unused_def idle_in_def proj_simps)
  have "bget c dv bn s = found c dv bn ?bid 0 m b ?s0"
    using recycle_found [OF nohold _ m none, of b dv bn] b
    by (simp add: bget_miss [OF miss] proj_simps)
  with b show ?thesis
    by blast
qed

lemma bget_miss_panic:
  assumes miss: "find (cached s dv bn) (buckets s ! HASH bn) = None"
      and nohold: "\<forall>i. \<not> cholding c i"
      and none: "\<forall>k<NBUCKET. \<not> idle_in s (bucket_at (HASH bn) k)"
  shows "bget c dv bn s =
           (Panics ''bget: no buffers'',
            emit (passed (HASH bn) 0 NBUCKET) (emit [Acquire (Bucket (HASH bn))] s))"
proof -
  let ?s0 = "emit [Acquire (Bucket (HASH bn))] s"
  from none have "\<forall>j. 0 \<le> j \<and> j < NBUCKET \<longrightarrow>
      scan (bufs ?s0) (buckets ?s0 ! bucket_at (HASH bn) j) None = None"
    by (simp add: scan_None_iff unused_def proj_simps idle_in_def)
  from recycle_panic [OF nohold _ this, of dv bn] show ?thesis
    by (simp add: bget_miss [OF miss])
qed

lemma all_busy_iff:
  "(\<forall>i<NBUCKET. \<forall>x\<in>set (buckets s ! i). 0 < refcnt (bufs s ! x)) \<longleftrightarrow>
   (\<forall>k<NBUCKET. \<not> idle_in s (bucket_at (HASH bn) k))"
proof
  assume l: "\<forall>i<NBUCKET. \<forall>x\<in>set (buckets s ! i). 0 < refcnt (bufs s ! x)"
  show "\<forall>k<NBUCKET. \<not> idle_in s (bucket_at (HASH bn) k)"
  proof (intro allI impI notI)
    fix k assume "idle_in s (bucket_at (HASH bn) k)"
    then obtain x where "x \<in> set (buckets s ! bucket_at (HASH bn) k)" "refcnt (bufs s ! x) = 0"
      by (auto simp: idle_in_def)
    with l bucket_at_less [of "HASH bn" k] show False
      by fastforce
  qed
next
  assume r: "\<forall>k<NBUCKET. \<not> idle_in s (bucket_at (HASH bn) k)"
  show "\<forall>i<NBUCKET. \<forall>x\<in>set (buckets s ! i). 0 < refcnt (bufs s ! x)"
  proof (intro allI impI ballI)
    fix i x assume i: "i < NBUCKET" and x: "x \<in> set (buckets s ! i)"
    from bucket_at_onto [OF HASH_less i] obtain k where "k < NBUCKET" "bucket_at (HASH bn) k = i"
      by blast
    with r x have "refcnt (bufs s ! x) \<noteq> 0"
      by (auto simp: idle_in_def)
    then show "0 < refcnt (bufs s ! x)"
      by (simp add: word_neq_0_conv)
  qed
qed

lemma first_idle:
  assumes "\<exists>k<NBUCKET. idle_in s (bucket_at bid k)"
  shows "\<exists>m<NBUCKET. idle_in s (bucket_at bid m) \<and> (\<forall>j<m. \<not> idle_in s (bucket_at bid j))"
proof -
  from assms have "\<exists>k. (k < NBUCKET \<and> idle_in s (bucket_at bid k)) \<and>
      (\<forall>j<k. \<not> (j < NBUCKET \<and> idle_in s (bucket_at bid j)))"
    by (subst exists_least_iff [symmetric]) blast
  then obtain m where "m < NBUCKET" "idle_in s (bucket_at bid m)"
      and "\<And>j. j < m \<Longrightarrow> \<not> idle_in s (bucket_at bid j)"
    by (metis order.strict_trans)
  then show ?thesis
    by blast
qed

subsection \<open>The hit path\<close>

text \<open>
  C5. When the chain of bucket \<open>HASH blockno\<close> holds a buffer with the \<open>dev\<close> and
  \<open>blockno\<close> asked for, \<open>bget\<close> takes the first such buffer \<open>b\<close>: it adds one to its
  \<open>refcnt\<close>, writes the tick value into its \<open>timestamp\<close> between taking and giving
  back \<open>tickslock\<close>, gives back the bucket's lock, then calls \<open>acquiresleep\<close> on \<open>b\<close>
  and returns \<open>b\<close> holding the sleep-lock (the caller waits in \<open>acquiresleep\<close> while
  another holder has it). \<open>dev\<close>, \<open>blockno\<close>, \<open>valid\<close> and \<open>data\<close> of \<open>b\<close>, every other
  buffer, the buckets and the disk are as before.
\<close>

theorem bget_hit_path:
  assumes hit: "find (cached s dv bn) (buckets s ! HASH bn) = Some b"
      and b: "b < length (bufs s)"
  shows "b \<in> set (buckets s ! HASH bn) \<and> dev (bufs s ! b) = dv \<and> blockno (bufs s ! b) = bn \<and>
         fst (bget c dv bn s) = (if lock (bufs s ! b) = None then Returns b else Sleeps b) \<and>
         bufs (snd (bget c dv bn s)) =
           (bufs s)[b := (bufs s ! b)\<lparr>refcnt := refcnt (bufs s ! b) + 1,
              timestamp := cticks c,
              lock := (if lock (bufs s ! b) = None then Some (cpid c)
                       else lock (bufs s ! b))\<rparr>] \<and>
         trace (snd (bget c dv bn s)) = trace s @
           [Acquire (Bucket (HASH bn)), Acquire Tickslock, Stamp b, Release Tickslock,
            Release (Bucket (HASH bn)), AcquireSleep b] \<and>
         buckets (snd (bget c dv bn s)) = buckets s \<and> disk (snd (bget c dv bn s)) = disk s \<and>
         dev (bufs (snd (bget c dv bn s)) ! b) = dev (bufs s ! b) \<and>
         blockno (bufs (snd (bget c dv bn s)) ! b) = blockno (bufs s ! b) \<and>
         valid (bufs (snd (bget c dv bn s)) ! b) = valid (bufs s ! b) \<and>
         data (bufs (snd (bget c dv bn s)) ! b) = data (bufs s ! b)"
proof -
  from hit have "b \<in> set (buckets s ! HASH bn) \<and> cached s dv bn b"
    by (auto simp: find_Some_iff)
  then have 1: "b \<in> set (buckets s ! HASH bn) \<and> dev (bufs s ! b) = dv \<and>
      blockno (bufs s ! b) = bn"
    by (simp add: cached_def)
  have 2: "bget c dv bn s =
     (if lock (bufs s ! b) = None then Returns b else Sleeps b,
      s\<lparr>bufs := (bufs s)[b := (bufs s ! b)\<lparr>refcnt := refcnt (bufs s ! b) + 1,
              timestamp := cticks c,
              lock := (if lock (bufs s ! b) = None then Some (cpid c)
                       else lock (bufs s ! b))\<rparr>],
        trace := trace s @
           [Acquire (Bucket (HASH bn)), Acquire Tickslock, Stamp b, Release Tickslock,
            Release (Bucket (HASH bn)), AcquireSleep b]\<rparr>)"
    using b
    by (simp add: bget_hit [OF hit] stamp_def acquiresleep_def emit_def upd_def
          split: option.splits)
  show ?thesis
    using b by (simp add: 1 2)
qed

theorem bget_hit_path_witness:
  "fst (bget ctx0 0 2 pool2) = Returns 1 \<and>
   refcnt (bufs (snd (bget ctx0 0 2 pool2)) ! 1) = 1 \<and>
   timestamp (bufs (snd (bget ctx0 0 2 pool2)) ! 1) = 9 \<and>
   lock (bufs (snd (bget ctx0 0 2 pool2)) ! 1) = Some 7 \<and>
   valid (bufs (snd (bget ctx0 0 2 pool2)) ! 1) = 1 \<and>
   blockno (bufs (snd (bget ctx0 0 2 pool2)) ! 1) = 2 \<and>
   trace (snd (bget ctx0 0 2 pool2)) =
     [Acquire (Bucket 0), Acquire Tickslock, Stamp 1, Release Tickslock, Release (Bucket 0),
      AcquireSleep 1]"
proof -
  have h: "HASH 2 = 0"
    by (simp add: HASH_def NBUCKET_def)
  have hit: "find (cached pool2 0 2) (buckets pool2 ! HASH 2) = Some 1"
    by (simp add: h pool2_def cached_def buf0_def)
  have len: "1 < length (bufs pool2)"
    by (simp add: pool2_def)
  from bget_hit_path [OF hit len, of ctx0] show ?thesis
    by (simp add: h pool2_def buf0_def ctx0_def)
qed

subsection \<open>The miss path\<close>

text \<open>
  C1. When no buffer on the chain of the home bucket \<open>HASH blockno\<close> holds the block,
  and the caller holds the lock of no other bucket, let round \<open>m\<close> be the first whose
  bucket (the home bucket in round 0, then the next ones modulo \<open>NBUCKET\<close>) holds a
  buffer with \<open>refcnt = 0\<close>. \<open>bget\<close> chooses in that bucket a buffer \<open>b\<close> with
  \<open>refcnt = 0\<close> whose \<open>timestamp\<close> no other such buffer of the bucket undercuts. If the
  bucket is not the home bucket, \<open>b\<close> leaves its chain and becomes the first buffer of
  the home bucket's chain. In either case \<open>b\<close> gets the \<open>dev\<close> and \<open>blockno\<close> asked
  for, \<open>valid = 0\<close>, \<open>refcnt = 1\<close> and the tick value as \<open>timestamp\<close>, and is returned
  with its sleep-lock taken (the caller waits in \<open>acquiresleep\<close> if somebody holds it).
  No other buffer changes.
\<close>

theorem bget_miss_recycles_lru:
  assumes miss: "find (cached s dv bn) (buckets s ! HASH bn) = None"
      and nohold: "\<forall>i. \<not> cholding c i"
      and m: "m < NBUCKET"
      and before: "\<forall>j<m. \<forall>x\<in>set (buckets s ! bucket_at (HASH bn) j). refcnt (bufs s ! x) \<noteq> 0"
      and here: "\<exists>x\<in>set (buckets s ! bucket_at (HASH bn) m). refcnt (bufs s ! x) = 0"
  shows "\<exists>b. b \<in> set (buckets s ! bucket_at (HASH bn) m) \<and> refcnt (bufs s ! b) = 0 \<and>
           (\<forall>x\<in>set (buckets s ! bucket_at (HASH bn) m).
               refcnt (bufs s ! x) = 0 \<longrightarrow> timestamp (bufs s ! b) \<le> timestamp (bufs s ! x)) \<and>
           fst (bget c dv bn s) = (if lock (bufs s ! b) = None then Returns b else Sleeps b) \<and>
           bufs (snd (bget c dv bn s)) =
             (bufs s)[b := (bufs s ! b)\<lparr>blockno := bn, dev := dv, valid := 0, refcnt := 1,
                timestamp := cticks c,
                lock := (if lock (bufs s ! b) = None then Some (cpid c)
                         else lock (bufs s ! b))\<rparr>] \<and>
           buckets (snd (bget c dv bn s)) =
             (if m = 0 then buckets s
              else (buckets s)
                [bucket_at (HASH bn) m := removeAll b (buckets s ! bucket_at (HASH bn) m),
                 HASH bn := b # buckets s ! HASH bn]) \<and>
           (m \<noteq> 0 \<longrightarrow> bucket_at (HASH bn) m \<noteq> HASH bn) \<and>
           disk (snd (bget c dv bn s)) = disk s"
proof -
  have "\<forall>j<m. \<not> idle_in s (bucket_at (HASH bn) j)"
    using before by (simp add: idle_in_def)
  moreover have "idle_in s (bucket_at (HASH bn) m)"
    using here by (simp add: idle_in_def)
  ultimately obtain b
    where b: "scan (bufs s) (buckets s ! bucket_at (HASH bn) m) None = Some b"
      and g: "bget c dv bn s =
               found c dv bn (HASH bn) 0 m b (emit [Acquire (Bucket (HASH bn))] s)"
    using bget_miss_found [OF miss nohold m] by blast
  from scan_Some [OF b] show ?thesis
    by (intro exI [of _ b])
       (simp add: g found_fst found_bufs found_buckets found_disk proj_simps unused_def
          bucket_at_home [OF m])
qed

theorem bget_miss_recycles_lru_witness:
  "fst (bget ctx0 0 1 pool2) = Returns 0 \<and>
   bufs (snd (bget ctx0 0 1 pool2)) =
     [buf0\<lparr>valid := 0, blockno := 1, refcnt := 1, timestamp := 9, lock := Some 7\<rparr>,
      buf0\<lparr>valid := 1, blockno := 2, timestamp := 7\<rparr>] \<and>
   buckets (snd (bget ctx0 0 1 pool2)) = [[1], [0]]"
proof -
  have h: "HASH 1 = 1"
    and a: "bucket_at 1 0 = 1" "bucket_at 1 1 = 0"
      "bucket_at (Suc 0) 0 = Suc 0" "bucket_at (Suc 0) (Suc 0) = 0"
    by (simp_all add: HASH_def NBUCKET_def bucket_at_def)
  have miss: "find (cached pool2 0 1) (buckets pool2 ! HASH 1) = None"
    by (simp add: h pool2_def)
  have nohold: "\<forall>i. \<not> cholding ctx0 i"
    by (simp add: ctx0_def)
  have m: "1 < NBUCKET"
    by (simp add: NBUCKET_def)
  have before: "\<forall>j<1. \<forall>x\<in>set (buckets pool2 ! bucket_at (HASH 1) j). refcnt (bufs pool2 ! x) \<noteq> 0"
    by (simp add: h a pool2_def)
  have here: "\<exists>x\<in>set (buckets pool2 ! bucket_at (HASH 1) 1). refcnt (bufs pool2 ! x) = 0"
    by (simp add: h a pool2_def buf0_def)
  from bget_miss_recycles_lru [OF miss nohold m before here]
  obtain b where b: "b \<in> set (buckets pool2 ! bucket_at (HASH 1) 1)"
      and least: "\<forall>x\<in>set (buckets pool2 ! bucket_at (HASH 1) 1).
         refcnt (bufs pool2 ! x) = 0 \<longrightarrow> timestamp (bufs pool2 ! b) \<le> timestamp (bufs pool2 ! x)"
      and r: "fst (bget ctx0 0 1 pool2) =
         (if lock (bufs pool2 ! b) = None then Returns b else Sleeps b)"
      and bs: "bufs (snd (bget ctx0 0 1 pool2)) =
         (bufs pool2)[b := (bufs pool2 ! b)\<lparr>blockno := 1, dev := 0, valid := 0, refcnt := 1,
            timestamp := cticks ctx0,
            lock := (if lock (bufs pool2 ! b) = None then Some (cpid ctx0)
                     else lock (bufs pool2 ! b))\<rparr>]"
      and bk: "buckets (snd (bget ctx0 0 1 pool2)) =
         (if (1::nat) = 0 then buckets pool2
          else (buckets pool2)
            [bucket_at (HASH 1) 1 := removeAll b (buckets pool2 ! bucket_at (HASH 1) 1),
             HASH 1 := b # buckets pool2 ! HASH 1])"
    by blast
  from b have "b = 1 \<or> b = 0"
    by (simp add: h a pool2_def)
  moreover have "b \<noteq> 1"
    using least by (auto simp: h a pool2_def buf0_def)
  ultimately have b0: "b = 0"
    by simp
  show ?thesis
    unfolding r bs bk b0 by (simp add: h a pool2_def buf0_def ctx0_def)
qed

text \<open>
  C8. On the miss path, with the caller holding the lock of no other bucket (\<open>bget\<close>
  is not entered again from inside itself), \<open>bget\<close> ends in
  \<^verbatim>\<open>panic("bget: no buffers")\<close> exactly when every buffer of every bucket has
  \<open>refcnt > 0\<close> (the count read as \<^verbatim>\<open>uint\<close>: greater than zero is not zero). When some
  buffer of some bucket has \<open>refcnt = 0\<close>, \<open>bget\<close> does not panic: it returns such a
  buffer (the caller waits in \<open>acquiresleep\<close> if somebody holds the buffer's
  sleep-lock).
\<close>

theorem bget_panics_iff_all_busy:
  assumes miss: "find (cached s dv bn) (buckets s ! HASH bn) = None"
      and nohold: "\<forall>i. \<not> cholding c i"
  shows "(fst (bget c dv bn s) = Panics ''bget: no buffers'' \<longleftrightarrow>
            (\<forall>i<NBUCKET. \<forall>x\<in>set (buckets s ! i). 0 < refcnt (bufs s ! x))) \<and>
         ((\<exists>i<NBUCKET. \<exists>x\<in>set (buckets s ! i). refcnt (bufs s ! x) = 0) \<longrightarrow>
            (\<exists>i<NBUCKET. \<exists>b\<in>set (buckets s ! i). refcnt (bufs s ! b) = 0 \<and>
               fst (bget c dv bn s) =
                 (if lock (bufs s ! b) = None then Returns b else Sleeps b)))"
proof (cases "\<exists>k<NBUCKET. idle_in s (bucket_at (HASH bn) k)")
  case True
  from first_idle [OF True] obtain m where m: "m < NBUCKET"
      and here: "idle_in s (bucket_at (HASH bn) m)"
      and before: "\<forall>j<m. \<not> idle_in s (bucket_at (HASH bn) j)"
    by blast
  from bget_miss_found [OF miss nohold m before here] obtain b
    where b: "scan (bufs s) (buckets s ! bucket_at (HASH bn) m) None = Some b"
      and g: "bget c dv bn s =
               found c dv bn (HASH bn) 0 m b (emit [Acquire (Bucket (HASH bn))] s)"
    by blast
  have r: "fst (bget c dv bn s) = (if lock (bufs s ! b) = None then Returns b else Sleeps b)"
    by (simp add: g found_fst proj_simps)
  then have nopanic: "fst (bget c dv bn s) \<noteq> Panics ''bget: no buffers''"
    by simp
  have busy: "\<not> (\<forall>i<NBUCKET. \<forall>x\<in>set (buckets s ! i). 0 < refcnt (bufs s ! x))"
    using True by (simp add: all_busy_iff [of s bn])
  from scan_Some [OF b] have "b \<in> set (buckets s ! bucket_at (HASH bn) m)"
      and "refcnt (bufs s ! b) = 0"
    by (simp_all add: unused_def)
  with r bucket_at_less [of "HASH bn" m]
  have "\<exists>i<NBUCKET. \<exists>b\<in>set (buckets s ! i). refcnt (bufs s ! b) = 0 \<and>
      fst (bget c dv bn s) = (if lock (bufs s ! b) = None then Returns b else Sleeps b)"
    by blast
  with nopanic busy show ?thesis
    by blast
next
  case False
  then have none: "\<forall>k<NBUCKET. \<not> idle_in s (bucket_at (HASH bn) k)"
    by simp
  have panic: "fst (bget c dv bn s) = Panics ''bget: no buffers''"
    by (simp add: bget_miss_panic [OF miss nohold none])
  have busy: "\<forall>i<NBUCKET. \<forall>x\<in>set (buckets s ! i). 0 < refcnt (bufs s ! x)"
    using none by (simp add: all_busy_iff [of s bn])
  then have "\<not> (\<exists>i<NBUCKET. \<exists>x\<in>set (buckets s ! i). refcnt (bufs s ! x) = 0)"
    by fastforce
  with panic busy show ?thesis
    by blast
qed

theorem bget_panics_iff_all_busy_witness:
  "fst (bget ctx0 0 1 busy2) = Panics ''bget: no buffers'' \<and>
   fst (bget ctx0 0 1 pool2) \<noteq> Panics ''bget: no buffers'' \<and>
   (\<exists>b. fst (bget ctx0 0 1 pool2) = Returns b)"
proof -
  have h: "HASH 1 = 1"
    by (simp add: HASH_def NBUCKET_def)
  have two: "(\<forall>i<NBUCKET. P i) \<longleftrightarrow> P 0 \<and> P 1" "(\<exists>i<NBUCKET. P i) \<longleftrightarrow> P 0 \<or> P 1" for P
    by (auto simp: NBUCKET_def less_2_cases_iff)
  have nohold: "\<forall>i. \<not> cholding ctx0 i"
    by (simp add: ctx0_def)
  have miss1: "find (cached busy2 0 1) (buckets busy2 ! HASH 1) = None"
    by (simp add: h busy2_def)
  have busy: "\<forall>i<NBUCKET. \<forall>x\<in>set (buckets busy2 ! i). 0 < refcnt (bufs busy2 ! x)"
    by (simp add: two busy2_def buf0_def)
  have miss2: "find (cached pool2 0 1) (buckets pool2 ! HASH 1) = None"
    by (simp add: h pool2_def)
  have idle: "\<exists>i<NBUCKET. \<exists>x\<in>set (buckets pool2 ! i). refcnt (bufs pool2 ! x) = 0"
    by (simp add: two pool2_def buf0_def)
  have free: "\<forall>i<NBUCKET. \<forall>x\<in>set (buckets pool2 ! i). lock (bufs pool2 ! x) = None"
    by (simp add: two pool2_def buf0_def)
  from bget_panics_iff_all_busy [OF miss1 nohold] busy
  have 1: "fst (bget ctx0 0 1 busy2) = Panics ''bget: no buffers''"
    by blast
  from bget_panics_iff_all_busy [OF miss2 nohold] idle
  obtain i b where "i < NBUCKET" "b \<in> set (buckets pool2 ! i)"
      "fst (bget ctx0 0 1 pool2) = (if lock (bufs pool2 ! b) = None then Returns b else Sleeps b)"
    by blast
  with free have 2: "fst (bget ctx0 0 1 pool2) = Returns b"
    by auto
  from 1 2 show ?thesis
    by simp
qed

subsection \<open>Buffers in use keep their block\<close>

lemma nth_update_used:
  "refcnt (xs ! b) = 0 \<Longrightarrow> refcnt (xs ! k) \<noteq> 0 \<Longrightarrow> xs[b := v] ! k = xs ! k"
  by (cases "k = b") auto

lemma keeps_emit: "keeps (emit es s) s' = keeps s s'"
  by (simp add: keeps_def proj_simps)

lemma recycle_keeps: "keeps s (snd (recycle c dv bn bid i cycle s))"
proof (induction "NBUCKET - cycle" arbitrary: i cycle s)
  case 0
  then show ?case by (simp add: recycle_stop keeps_def)
next
  case (Suc n)
  then have lt: "cycle < NBUCKET" and n: "n = NBUCKET - (cycle + 1)"
    by simp_all
  show ?case
  proof (cases "i \<noteq> bid \<and> cholding c i")
    case True
    with Suc.hyps(1) [OF n] show ?thesis
      by (simp only: recycle_skip [OF lt True])
  next
    case visit: False
    show ?thesis
    proof (cases "scan (bufs s) (buckets s ! i) None")
      case None
      have "keeps (if i \<noteq> bid then emit [Acquire (Bucket i), Release (Bucket i)] s else s)
              (snd (recycle c dv bn bid ((i + 1) mod NBUCKET) (cycle + 1)
                 (if i \<noteq> bid then emit [Acquire (Bucket i), Release (Bucket i)] s else s)))"
        by (rule Suc.hyps(1) [OF n])
      then show ?thesis
        by (simp only: recycle_none [OF lt visit None] keeps_emit
              if_distrib [of "\<lambda>x. keeps x _"] if_cancel)
    next
      case (Some b)
      from scan_Some [OF Some] have "refcnt (bufs s ! b) = 0"
        by (simp add: unused_def)
      then show ?thesis
        by (simp add: recycle_some [OF lt visit Some] keeps_def reuse_bufs bufs_steal
              proj_simps nth_update_used)
    qed
  qed
qed

lemma keeps_same_block:
  "keeps s s' \<Longrightarrow> refcnt (bufs s ! k) \<noteq> 0 \<Longrightarrow> same_block (bufs s' ! k) (bufs s ! k)"
  by (simp add: keeps_def same_block_def)

lemma same_block_refl: "same_block x x"
  by (simp add: same_block_def)

lemma same_block_trans: "same_block x y \<Longrightarrow> same_block y z \<Longrightarrow> same_block x z"
  by (simp add: same_block_def)

lemma same_block_upd:
  assumes "\<And>x. same_block (f x) x"
  shows "same_block (bufs (upd b f s) ! k) (bufs s ! k)"
proof (cases "k = b \<and> b < length (bufs s)")
  case True
  with assms show ?thesis by (simp add: proj_simps)
next
  case False
  then show ?thesis
    by (cases "b < length (bufs s)") (auto simp: proj_simps same_block_def list_update_beyond)
qed

lemma bget_same_block:
  assumes "\<not> same_block (bufs (snd (bget c dv bn s)) ! k) (bufs s ! k)"
  shows "find (cached s dv bn) (buckets s ! HASH bn) = None \<and> refcnt (bufs s ! k) = 0"
proof (cases "find (cached s dv bn) (buckets s ! HASH bn)")
  case None
  have "keeps (emit [Acquire (Bucket (HASH bn))] s) (snd (bget c dv bn s))"
    unfolding bget_miss [OF None] by (rule recycle_keeps)
  with assms None show ?thesis
    using keeps_same_block [of s "snd (bget c dv bn s)" k] by (auto simp: keeps_emit)
next
  case (Some b)
  have "same_block (bufs (snd (bget c dv bn s)) ! k) (bufs s ! k)"
    unfolding bget_hit [OF Some]
    by (cases "b < length (bufs s)"; cases "k = b")
       (auto simp: stamp_def acquiresleep_def proj_simps same_block_def list_update_beyond
             split: option.splits)
  with assms show ?thesis by simp
qed

lemma bread_same_block:
  assumes "\<not> same_block (bufs (snd (bread c dv bn s)) ! k) (bufs s ! k)"
  shows "find (cached s dv bn) (buckets s ! HASH bn) = None \<and> refcnt (bufs s ! k) = 0"
proof -
  obtain r s1 where g: "bget c dv bn s = (r, s1)"
    by (cases "bget c dv bn s")
  have "same_block (bufs (snd (bread c dv bn s)) ! k) (bufs s1 ! k)"
  proof (cases r)
    case (Returns b)
    have "same_block (bufs (upd b (\<lambda>x. x\<lparr>valid := 1\<rparr>) (virtio_disk_rw b False s1)) ! k)
            (bufs (virtio_disk_rw b False s1) ! k)"
      by (rule same_block_upd) (simp add: same_block_def)
    moreover have "same_block (bufs (virtio_disk_rw b False s1) ! k) (bufs s1 ! k)"
      unfolding virtio_disk_rw_def Let_def if_False
      by (rule same_block_upd) (simp add: same_block_def)
    ultimately show ?thesis
      using g Returns by (auto simp: bread_def same_block_refl intro: same_block_trans)
  qed (simp_all add: bread_def g same_block_refl)
  with assms have "\<not> same_block (bufs (snd (bget c dv bn s)) ! k) (bufs s ! k)"
    using g by (auto intro: same_block_trans)
  then show ?thesis
    by (rule bget_same_block)
qed

lemma bdo_same_block:
  assumes "\<not> same_block (bufs (snd (bdo x s)) ! k) (bufs s ! k)"
  shows "misses x s \<and> refcnt (bufs s ! k) = 0"
proof (cases x)
  case (Bget c dv bn)
  with assms bget_same_block [of c dv bn s k] show ?thesis
    by (simp split: prod.splits)
next
  case (Bread c dv bn)
  with assms bread_same_block [of c dv bn s k] show ?thesis
    by (simp split: prod.splits)
next
  case (Bwrite c b)
  with assms show ?thesis
    by (simp add: bwrite_def virtio_disk_rw_def Let_def same_block_refl split: if_splits)
next
  case (Brelse c b)
  have "same_block (bufs (snd (brelse c b s)) ! k) (bufs s ! k)"
    by (cases "b < length (bufs s)"; cases "k = b")
       (simp_all add: brelse_def Let_def releasesleep_def stamp_def proj_simps same_block_def
          list_update_beyond)
  with assms Brelse show ?thesis
    by (simp split: prod.splits)
next
  case (Bpin b)
  have "same_block (bufs (bpin b s) ! k) (bufs s ! k)"
    by (cases "b < length (bufs s)"; cases "k = b")
       (simp_all add: bpin_def Let_def proj_simps same_block_def list_update_beyond)
  with assms Bpin show ?thesis by simp
next
  case (Bunpin b)
  have "same_block (bufs (bunpin b s) ! k) (bufs s ! k)"
    by (cases "b < length (bufs s)"; cases "k = b")
       (simp_all add: bunpin_def Let_def proj_simps same_block_def list_update_beyond)
  with assms Bunpin show ?thesis by simp
qed

lemma brun_0: "brun xs s ! 0 = s"
  by (cases xs) simp_all

lemma brun_step:
  "Suc n < length (brun xs s) \<Longrightarrow>
   n < length xs \<and> brun xs s ! Suc n = snd (bdo (xs ! n) (brun xs s ! n))"
proof (induction xs arbitrary: s n)
  case Nil
  then show ?case by simp
next
  case (Cons x xs)
  obtain p s' where d: "bdo x s = (p, s')"
    by (cases "bdo x s")
  show ?case
  proof (cases n)
    case 0
    with d show ?thesis
      by (cases p) (simp_all add: brun_0)
  next
    case (Suc n')
    with Cons.prems d have p: "\<not> p" and l: "Suc n' < length (brun xs s')"
      by (cases p; simp)+
    from Cons.IH [OF l] Suc d p show ?thesis
      by simp
  qed
qed

text \<open>
  C4. Along every sequence of \<open>bget\<close>, \<open>bread\<close>, \<open>bwrite\<close>, \<open>brelse\<close>, \<open>bpin\<close> and
  \<open>bunpin\<close> calls, from any state, with any callers and arguments: a buffer of the pool
  whose \<open>refcnt\<close> is not 0 before a call has the same \<open>dev\<close> and \<open>blockno\<close> after it.
  A call that changes \<open>dev\<close> or \<open>blockno\<close> of a buffer is a \<open>bget\<close> (alone or inside
  \<open>bread\<close>) on its miss path, and the buffer had \<open>refcnt = 0\<close> before it.
\<close>

theorem busy_buffer_keeps_block:
  assumes "Suc n < length (brun xs s)" and "k < length (bufs (brun xs s ! n))"
  shows "(refcnt (bufs (brun xs s ! n) ! k) \<noteq> 0 \<longrightarrow>
            dev (bufs (brun xs s ! Suc n) ! k) = dev (bufs (brun xs s ! n) ! k) \<and>
            blockno (bufs (brun xs s ! Suc n) ! k) = blockno (bufs (brun xs s ! n) ! k)) \<and>
         (dev (bufs (brun xs s ! Suc n) ! k) \<noteq> dev (bufs (brun xs s ! n) ! k) \<or>
          blockno (bufs (brun xs s ! Suc n) ! k) \<noteq> blockno (bufs (brun xs s ! n) ! k) \<longrightarrow>
            misses (xs ! n) (brun xs s ! n) \<and> refcnt (bufs (brun xs s ! n) ! k) = 0)"
  using brun_step [OF assms(1)] bdo_same_block [of "xs ! n" "brun xs s ! n" k]
  by (auto simp: same_block_def)

theorem busy_buffer_keeps_block_witness:
  "length (brun [Bget ctx0 0 1] half2) = 2 \<and>
   refcnt (bufs (brun [Bget ctx0 0 1] half2 ! 0) ! 0) = 1 \<and>
   dev (bufs (brun [Bget ctx0 0 1] half2 ! 1) ! 0) = 0 \<and>
   blockno (bufs (brun [Bget ctx0 0 1] half2 ! 1) ! 0) = 0 \<and>
   blockno (bufs (brun [Bget ctx0 0 1] half2 ! 0) ! 1) = 2 \<and>
   blockno (bufs (brun [Bget ctx0 0 1] half2 ! 1) ! 1) = 1 \<and>
   misses (Bget ctx0 0 1) half2 \<and>
   refcnt (bufs (brun [Bget ctx0 0 1] half2 ! 0) ! 1) = 0"
proof -
  let ?t = "brun [Bget ctx0 0 1] half2"
  have len: "length ?t = 2"
    by code_simp
  then have n: "Suc 0 < length ?t"
    by simp
  have t0: "?t ! 0 = half2"
    by (rule brun_0)
  have k0: "0 < length (bufs (?t ! 0))" and k1: "1 < length (bufs (?t ! 0))"
    unfolding t0 by (simp_all add: half2_def)
  have r0: "refcnt (bufs (?t ! 0) ! 0) = 1" "dev (bufs (?t ! 0) ! 0) = 0"
      "blockno (bufs (?t ! 0) ! 0) = 0" "blockno (bufs (?t ! 0) ! 1) = 2"
    unfolding t0 by (simp_all add: half2_def buf0_def)
  have r1: "blockno (bufs (?t ! Suc 0) ! 1) = 1"
    by code_simp
  from busy_buffer_keeps_block [OF n k0] busy_buffer_keeps_block [OF n k1] r0 r1 len
  show ?thesis
    by (simp add: t0)
qed

subsection \<open>bwrite, brelse and the sleep-lock\<close>

text \<open>
  C9. \<open>bwrite\<close> and \<open>brelse\<close> called on a buffer whose sleep-lock the caller does not
  hold end in \<^verbatim>\<open>panic\<close> with the state untouched. Called by the holder, \<open>bwrite\<close>
  writes the buffer's data to its block of the device and changes nothing else;
  \<open>brelse\<close> frees the sleep-lock, takes one off \<open>refcnt\<close> and writes the tick value
  into \<open>timestamp\<close>, in this order and under the bucket's lock.
\<close>

theorem bwrite_brelse_need_sleeplock:
  "(\<not> holdingsleep (cpid c) b s \<longrightarrow>
      bwrite c b s = (Panics ''bwrite'', s) \<and> brelse c b s = (Panics ''brelse'', s)) \<and>
   (holdingsleep (cpid c) b s \<and> b < length (bufs s) \<longrightarrow>
      bwrite c b s =
        (Returns (),
         s\<lparr>disk := (disk s)((dev (bufs s ! b), blockno (bufs s ! b)) := data (bufs s ! b))\<rparr>) \<and>
      fst (brelse c b s) = Returns () \<and>
      bufs (snd (brelse c b s)) =
        (bufs s)[b := (bufs s ! b)\<lparr>lock := None, refcnt := refcnt (bufs s ! b) - 1,
                                  timestamp := cticks c\<rparr>] \<and>
      buckets (snd (brelse c b s)) = buckets s \<and> disk (snd (brelse c b s)) = disk s \<and>
      trace (snd (brelse c b s)) = trace s @
        [ReleaseSleep b, Acquire (Bucket (HASH (blockno (bufs s ! b)))), Acquire Tickslock,
         Stamp b, Release Tickslock, Release (Bucket (HASH (blockno (bufs s ! b))))])"
  by (simp add: bwrite_def brelse_def virtio_disk_rw_def Let_def releasesleep_def stamp_def
        proj_simps)

theorem bwrite_brelse_need_sleeplock_witness:
  "\<not> holdingsleep (cpid ctx0) 0 busy2 \<and>
   bwrite ctx0 0 busy2 = (Panics ''bwrite'', busy2) \<and>
   brelse ctx0 0 busy2 = (Panics ''brelse'', busy2) \<and>
   holdingsleep (cpid (ctx0\<lparr>cpid := 3\<rparr>)) 0 busy2 \<and>
   fst (bwrite (ctx0\<lparr>cpid := 3\<rparr>) 0 busy2) = Returns () \<and>
   fst (brelse (ctx0\<lparr>cpid := 3\<rparr>) 0 busy2) = Returns () \<and>
   bufs (snd (brelse (ctx0\<lparr>cpid := 3\<rparr>) 0 busy2)) =
     [buf0\<lparr>valid := 1, timestamp := 9, refcnt := 0, lock := None\<rparr>,
      buf0\<lparr>valid := 1, blockno := 2, timestamp := 7, refcnt := 1, lock := Some 4\<rparr>]"
proof -
  have 1: "\<not> holdingsleep (cpid ctx0) 0 busy2"
    by (simp add: holdingsleep_def ctx0_def busy2_def buf0_def)
  have 2: "holdingsleep (cpid (ctx0\<lparr>cpid := 3\<rparr>)) 0 busy2 \<and> 0 < length (bufs busy2)"
    by (simp add: holdingsleep_def ctx0_def busy2_def buf0_def)
  from bwrite_brelse_need_sleeplock [of ctx0 0 busy2]
    bwrite_brelse_need_sleeplock [of "ctx0\<lparr>cpid := 3\<rparr>" 0 busy2] 1 2
  show ?thesis
    by (simp add: busy2_def buf0_def ctx0_def)
qed

subsection \<open>bunpin\<close>

text \<open>
  C10. \<open>bunpin\<close> takes one off \<open>refcnt\<close> whatever its value and whoever holds the
  sleep-lock, which it leaves as it is; nothing makes it fail. On a buffer whose
  \<open>refcnt\<close> is 0 the field ends as \<open>-1\<close> (all 32 bits set: \<open>-1\<close> read as \<^verbatim>\<open>int\<close>,
  4294967295 read as \<^verbatim>\<open>uint\<close>), so a count that never goes below zero rests on the
  callers' pairing of \<open>bunpin\<close> with an earlier \<open>bpin\<close> or \<open>bget\<close>.
\<close>

theorem bunpin_decrements_unchecked:
  assumes "b < length (bufs s)"
  shows "refcnt (bufs (bunpin b s) ! b) = refcnt (bufs s ! b) - 1 \<and>
         lock (bufs (bunpin b s) ! b) = lock (bufs s ! b) \<and>
         (refcnt (bufs s ! b) = 0 \<longrightarrow>
            refcnt (bufs (bunpin b s) ! b) = - 1 \<and>
            sint (refcnt (bufs (bunpin b s) ! b)) = - 1 \<and>
            unat (refcnt (bufs (bunpin b s) ! b)) = 4294967295)"
proof -
  have "unat (- 1 :: uint) = 4294967295"
    by (simp add: unsigned_minus_1_eq_mask mask_eq_exp_minus_1)
  with assms show ?thesis
    by (simp add: bunpin_def Let_def bufs_emit bufs_upd)
qed

theorem bunpin_decrements_unchecked_witness:
  "0 < length (bufs pool1) \<and> refcnt (bufs pool1 ! 0) = 0 \<and>
   refcnt (bufs (bunpin 0 pool1) ! 0) = - 1 \<and>
   sint (refcnt (bufs (bunpin 0 pool1) ! 0)) = - 1 \<and>
   lock (bufs (bunpin 0 pool1) ! 0) = None"
proof -
  have l: "0 < length (bufs pool1)" and z: "refcnt (bufs pool1 ! 0) = 0"
    and k: "lock (bufs pool1 ! 0) = None"
    by (simp_all add: pool1_def buf0_def)
  from bunpin_decrements_unchecked [OF l] z k l show ?thesis
    by simp
qed

section \<open>Properties of the page allocator\<close>

subsection \<open>Memory\<close>

lemma memset_in: "a \<le> x \<Longrightarrow> x < a + n \<Longrightarrow> memset m a c n x = c"
  by (simp add: memset_def)

lemma memset_out: "x < a \<or> a + n \<le> x \<Longrightarrow> memset m a c n x = m x"
  by (auto simp: memset_def)

lemma store64_out: "x < a \<or> a + 8 \<le> x \<Longrightarrow> store64 m a v x = m x"
  by (auto simp: store64_def)

lemma load64_cong:
  assumes "\<And>k. k < 8 \<Longrightarrow> m' (a + k) = m (a + k)"
  shows "load64 m' a = load64 m a"
  unfolding load64_def
  by (intro arg_cong [where f = sum_list] map_cong refl) (simp add: assms)

lemma digits_sum: "(\<Sum>k\<leftarrow>[0..<n]. (v div b ^ k mod b) * b ^ k) = v mod b ^ n" for v b :: nat
proof (induction n)
  case 0
  then show ?case by simp
next
  case (Suc n)
  have "v mod (b ^ n * b) = b ^ n * (v div b ^ n mod b) + v mod b ^ n"
    by (rule mod_mult2_eq)
  with Suc show ?case
    by (simp add: mult.commute)
qed

lemma load64_store64:
  assumes "v < 2 ^ 64"
  shows "load64 (store64 m a v) a = v"
proof -
  have "load64 (store64 m a v) a = (\<Sum>k\<leftarrow>[0..<8]. (v div 256 ^ k mod 256) * 256 ^ k)"
    unfolding load64_def store64_def
    by (intro arg_cong [where f = sum_list] map_cong refl) (simp add: unat_of_nat)
  also have "\<dots> = v mod 256 ^ 8"
    by (rule digits_sum)
  finally show ?thesis using assms by simp
qed


lemma chain_cong:
  "(\<And>x k. x \<in> set xs \<Longrightarrow> k < 8 \<Longrightarrow> m' (x + k) = m (x + k)) \<Longrightarrow>
   chain m' p xs = chain m p xs"
proof (induction xs arbitrary: p)
  case Nil
  then show ?case by simp
next
  case (Cons x xs)
  have "load64 m' x = load64 m x"
    by (rule load64_cong) (simp add: Cons.prems)
  with Cons show ?case by simp
qed

lemma page_apart:
  assumes "x mod PGSIZE = 0" "r mod PGSIZE = 0" "x \<noteq> r" "k < PGSIZE"
  shows "x + k < r \<or> r + PGSIZE \<le> x + k"
proof -
  from assms(1,2) have "PGSIZE dvd x" "PGSIZE dvd r"
    by (simp_all add: mod_eq_0_iff_dvd)
  then obtain i j where "x = i * PGSIZE" "r = j * PGSIZE"
    by (auto simp: dvd_def mult.commute)
  with assms have "i \<noteq> j" by auto
  then consider "i < j" | "j < i" by linarith
  then show ?thesis
  proof cases
    case 1
    then have "Suc i \<le> j" by simp
    then have "Suc i * PGSIZE \<le> j * PGSIZE" by (rule mult_le_mono1)
    with assms \<open>x = _\<close> \<open>r = _\<close> show ?thesis by simp
  next
    case 2
    then have "Suc j \<le> i" by simp
    then have "Suc j * PGSIZE \<le> i * PGSIZE" by (rule mult_le_mono1)
    with assms \<open>x = _\<close> \<open>r = _\<close> show ?thesis by simp
  qed
qed

lemma chain_memset:
  assumes "\<forall>x\<in>set xs. x mod PGSIZE = 0" "r mod PGSIZE = 0" "r \<notin> set xs"
  shows "chain (memset m r c PGSIZE) p xs = chain m p xs"
proof (rule chain_cong)
  fix x k :: nat assume x: "x \<in> set xs" and k: "k < 8"
  with assms have "x mod PGSIZE = 0" "x \<noteq> r" by auto
  from page_apart [OF this(1) assms(2) this(2), of k] k
  show "memset m r c PGSIZE (x + k) = m (x + k)"
    by (intro memset_out) (simp add: PGSIZE_def)
qed

lemma chain_store64:
  assumes "\<forall>x\<in>set xs. x mod PGSIZE = 0" "r mod PGSIZE = 0" "r \<notin> set xs"
  shows "chain (store64 m r v) p xs = chain m p xs"
proof (rule chain_cong)
  fix x k :: nat assume x: "x \<in> set xs" and k: "k < 8"
  with assms have "x mod PGSIZE = 0" "x \<noteq> r" by auto
  from page_apart [OF this(1) assms(2) this(2), of k] k
  show "store64 m r v (x + k) = m (x + k)"
    by (intro store64_out) (auto simp: PGSIZE_def)
qed

lemma chain_unique: "chain m p xs \<Longrightarrow> chain m p ys \<Longrightarrow> xs = ys"
proof (induction xs arbitrary: p ys)
  case Nil
  then show ?case by (cases ys) auto
next
  case (Cons x xs)
  then show ?case by (cases ys) auto
qed

lemma chain_reach: "chain m p xs \<Longrightarrow> reach m p a \<longleftrightarrow> a \<in> set xs"
proof
  assume "chain m p xs" "reach m p a"
  from this(2) this(1) show "a \<in> set xs"
  proof (induction arbitrary: xs rule: reach.induct)
    case (here p)
    then show ?case by (cases xs) auto
  next
    case (further p a)
    then show ?case by (cases xs) auto
  qed
next
  show "chain m p xs \<Longrightarrow> a \<in> set xs \<Longrightarrow> reach m p a"
  proof (induction xs arbitrary: p)
    case Nil
    then show ?case by simp
  next
    case (Cons x xs)
    then show ?case
      by (cases "a = x") (auto intro: reach.intros)
  qed
qed

lemma index_in_bounds:
  assumes "PHYSTOP cf mod PGSIZE = 0" "pa < PHYSTOP cf"
  shows "pa div PGSIZE < ncnt cf"
proof -
  from assms(1) have "PGSIZE dvd PHYSTOP cf"
    by (simp add: mod_eq_0_iff_dvd)
  then have "PHYSTOP cf = ncnt cf * PGSIZE"
    by (simp add: ncnt_def)
  with assms(2) have "pa < ncnt cf * PGSIZE" by simp
  then show ?thesis
    by (simp add: PGSIZE_def less_mult_imp_div_less)
qed

subsection \<open>The invariant of the free list and the counts\<close>

lemma aligned_div_inj:
  "a mod PGSIZE = 0 \<Longrightarrow> r mod PGSIZE = 0 \<Longrightarrow> a div PGSIZE = r div PGSIZE \<Longrightarrow> a = r"
  by (metis div_mult_mod_eq add.right_neutral)

lemma managed_bounds:
  assumes "cfg_ok cf" "managed cf a"
  shows "a mod PGSIZE = 0" "0 < a" "a < 2 ^ 64" "a div PGSIZE < ncnt cf" "\<not> bad_pa cf a"
proof -
  from assms show "a mod PGSIZE = 0" "0 < a" "a < 2 ^ 64" "\<not> bad_pa cf a"
    by (auto simp: cfg_ok_def managed_def bad_pa_def)
  from assms show "a div PGSIZE < ncnt cf"
    by (intro index_in_bounds) (simp_all add: cfg_ok_def managed_def)
qed

lemma chain_push:
  assumes "chain m p xs" "\<forall>x\<in>set xs. x mod PGSIZE = 0 \<and> x < 2 ^ 64"
      and "pa mod PGSIZE = 0" "pa \<notin> set xs" "0 < pa"
  shows "chain (store64 (memset m pa c PGSIZE) pa p) pa (pa # xs)"
proof -
  from assms(1,2) have "p < 2 ^ 64"
    by (cases xs) auto
  moreover have "chain (store64 (memset m pa c PGSIZE) pa p) p xs = chain m p xs"
    using assms by (simp add: chain_store64 chain_memset)
  ultimately show ?thesis
    using assms by (simp add: load64_store64)
qed

lemma kinv_kalloc:
  assumes ok: "cfg_ok cf" and inv: "kinv cf s xs"
  shows "kinv cf (snd (kalloc cf s)) (tl xs)"
proof (cases xs)
  case Nil
  with inv show ?thesis
    by (simp add: kinv_def kalloc_def)
next
  case (Cons r rest)
  with inv have r: "freelist s = r" "r \<noteq> 0" "managed cf r" "r \<notin> set rest"
      and c: "chain (mem s) (load64 (mem s) r) rest" and d: "distinct rest"
      and m: "\<forall>x\<in>set rest. managed cf x"
      and p: "\<forall>a. managed cf a \<longrightarrow> (a \<in> set (r # rest) \<longleftrightarrow> cnt s (a div PGSIZE) = 0)"
    by (auto simp: kinv_def)
  note rb = managed_bounds [OF ok r(3)]
  have k: "snd (kalloc cf s) =
      s\<lparr>freelist := load64 (mem s) r, cnt := (cnt s)(r div PGSIZE := 1),
        mem := memset (mem s) r 5 PGSIZE\<rparr>"
    using r rb by (simp add: kalloc_def Let_def)
  have al: "\<forall>x\<in>set rest. x mod PGSIZE = 0"
    using m managed_bounds(1) [OF ok] by blast
  have c': "chain (memset (mem s) r 5 PGSIZE) (load64 (mem s) r) rest"
    using c al rb(1) r(4) by (simp add: chain_memset)
  have p': "a \<in> set rest \<longleftrightarrow> ((cnt s)(r div PGSIZE := 1)) (a div PGSIZE) = 0"
    if a: "managed cf a" for a
  proof (cases "a = r")
    case True
    with r show ?thesis by simp
  next
    case False
    with aligned_div_inj [OF managed_bounds(1) [OF ok a] rb(1)]
    have "a div PGSIZE \<noteq> r div PGSIZE" by blast
    with p a False show ?thesis by auto
  qed
  show ?thesis
    using c' d m p' by (simp add: Cons k kinv_def)
qed

lemma pos_signed_nonzero: "0 <s (c :: 32 word) \<Longrightarrow> c \<noteq> 0 \<and> c + 1 \<noteq> 0"
proof
  assume "0 <s c"
  then show "c \<noteq> 0" by auto
  show "c + 1 \<noteq> 0"
  proof
    assume "c + 1 = 0"
    then have "c = - 1"
      by (simp add: eq_neg_iff_add_eq_0)
    with \<open>0 <s c\<close> show False
      by (simp add: word_sless_alt)
  qed
qed

lemma kinv_kaddrefcnt:
  assumes ok: "cfg_ok cf" and inv: "kinv cf s xs" and own: "owned cf (Kaddrefcnt pa) s"
  shows "kinv cf (snd (kaddrefcnt cf pa s)) xs"
proof -
  from own have g: "\<not> bad_pa cf pa" and pos: "0 <s cnt s (pa div PGSIZE)"
    by simp_all
  then have mg: "managed cf pa"
    by (simp add: bad_pa_def managed_def not_le)
  note b = managed_bounds [OF ok mg]
  have k: "snd (kaddrefcnt cf pa s) = s\<lparr>cnt := (cnt s)(pa div PGSIZE := cnt s (pa div PGSIZE) + 1)\<rparr>"
    using g b by (simp add: kaddrefcnt_def)
  from inv have p: "\<forall>a. managed cf a \<longrightarrow> (a \<in> set xs \<longleftrightarrow> cnt s (a div PGSIZE) = 0)"
    by (simp add: kinv_def)
  have "a \<in> set xs \<longleftrightarrow> ((cnt s)(pa div PGSIZE := cnt s (pa div PGSIZE) + 1)) (a div PGSIZE) = 0"
    if a: "managed cf a" for a
  proof (cases "a = pa")
    case True
    with p mg pos_signed_nonzero [OF pos] show ?thesis by simp
  next
    case False
    with aligned_div_inj [OF managed_bounds(1) [OF ok a] b(1)]
    have "a div PGSIZE \<noteq> pa div PGSIZE" by blast
    with p a show ?thesis by simp
  qed
  with inv show ?thesis
    by (simp add: k kinv_def)
qed

lemma kinv_kfree:
  assumes ok: "cfg_ok cf" and inv: "kinv cf s xs" and own: "owned cf (Kfree pa) s"
  shows "kinv cf (snd (kfree cf pa s))
           (if cnt s (pa div PGSIZE) - 1 = 0 then pa # xs else xs)"
proof -
  from own have g: "\<not> bad_pa cf pa" and pos: "0 <s cnt s (pa div PGSIZE)"
    by simp_all
  then have mg: "managed cf pa"
    by (simp add: bad_pa_def managed_def not_le)
  note b = managed_bounds [OF ok mg]
  from inv have c: "chain (mem s) (freelist s) xs" and d: "distinct xs"
      and m: "\<forall>x\<in>set xs. managed cf x"
      and p: "\<forall>a. managed cf a \<longrightarrow> (a \<in> set xs \<longleftrightarrow> cnt s (a div PGSIZE) = 0)"
    by (simp_all add: kinv_def)
  from p mg pos_signed_nonzero [OF pos] have notin: "pa \<notin> set xs"
    by simp
  have other: "a \<in> set xs \<longleftrightarrow> ((cnt s)(pa div PGSIZE := v)) (a div PGSIZE) = 0"
    if a: "managed cf a" "a \<noteq> pa" for a v
  proof -
    from aligned_div_inj [OF managed_bounds(1) [OF ok a(1)] b(1)] a(2)
    have "a div PGSIZE \<noteq> pa div PGSIZE" by blast
    with p a show ?thesis by simp
  qed
  show ?thesis
  proof (cases "cnt s (pa div PGSIZE) - 1 = 0")
    case True
    have k: "snd (kfree cf pa s) =
        s\<lparr>cnt := (cnt s)(pa div PGSIZE := 0),
          mem := store64 (memset (mem s) pa 1 PGSIZE) pa (freelist s), freelist := pa\<rparr>"
      using g b True by (simp add: kfree_def Let_def)
    have al: "\<forall>x\<in>set xs. x mod PGSIZE = 0 \<and> x < 2 ^ 64"
      using m managed_bounds [OF ok] by blast
    have c': "chain (store64 (memset (mem s) pa 1 PGSIZE) pa (freelist s)) pa (pa # xs)"
      by (rule chain_push [OF c al b(1) notin b(2)])
    have "a \<in> set (pa # xs) \<longleftrightarrow> ((cnt s)(pa div PGSIZE := 0)) (a div PGSIZE) = 0"
      if a: "managed cf a" for a
      using other [OF a, of 0] by (cases "a = pa") simp_all
    with c' d notin m mg True show ?thesis
      by (simp add: k kinv_def)
  next
    case False
    have k: "snd (kfree cf pa s) = s\<lparr>cnt := (cnt s)(pa div PGSIZE := cnt s (pa div PGSIZE) - 1)\<rparr>"
      using g b False by (simp add: kfree_def Let_def)
    have "a \<in> set xs \<longleftrightarrow>
        ((cnt s)(pa div PGSIZE := cnt s (pa div PGSIZE) - 1)) (a div PGSIZE) = 0"
      if a: "managed cf a" for a
      using other [OF a] notin False by (cases "a = pa") simp_all
    with c d m False show ?thesis
      by (simp add: k kinv_def)
  qed
qed

lemma kinv_kdo:
  assumes "cfg_ok cf" "kinv cf s xs" "owned cf x s"
  shows "\<exists>ys. kinv cf (kdo cf x s) ys"
proof (cases x)
  case Kalloc
  with kinv_kalloc [OF assms(1,2)] show ?thesis by auto
next
  case (Kfree pa)
  with kinv_kfree [OF assms(1,2)] assms(3) show ?thesis by auto
next
  case (Kaddrefcnt pa)
  with kinv_kaddrefcnt [OF assms(1,2)] assms(3) show ?thesis by auto
qed

lemma kinv_krun:
  "cfg_ok cf \<Longrightarrow> kinv cf s xs \<Longrightarrow> owned_run cf ops s \<Longrightarrow> \<exists>ys. kinv cf (krun cf ops s) ys"
proof (induction ops arbitrary: s xs)
  case Nil
  then show ?case by auto
next
  case (Cons x ops)
  from kinv_kdo [OF Cons.prems(1,2)] Cons.prems(3) obtain ys where "kinv cf (kdo cf x s) ys"
    by auto
  from Cons.IH [OF Cons.prems(1) this] Cons.prems(3) show ?case
    by simp
qed

lemma kinv_P1: "kinv cf s xs \<Longrightarrow> P1 cf s"
  using chain_reach [of "mem s" "freelist s" xs]
  by (auto simp: kinv_def P1_def on_freelist_def)

subsection \<open>kinit\<close>

lemma PGROUNDUP_aligned: "PGROUNDUP a mod PGSIZE = 0"
  by (simp add: PGROUNDUP_def)

lemma PGROUNDUP_ge: "a \<le> PGROUNDUP a"
proof -
  have "a + PGSIZE - 1 < (a + PGSIZE - 1) div PGSIZE * PGSIZE + PGSIZE"
    using div_mult_mod_eq [of "a + PGSIZE - 1" PGSIZE] mod_less_divisor [of PGSIZE "a + PGSIZE - 1"]
    by (simp add: PGSIZE_def)
  then show ?thesis
    by (simp add: PGROUNDUP_def PGSIZE_def)
qed

lemma PGROUNDUP_least:
  assumes "b mod PGSIZE = 0" "a \<le> b"
  shows "PGROUNDUP a \<le> b"
proof -
  from assms(1) obtain j where j: "b = j * PGSIZE"
    by (auto simp: mod_eq_0_iff_dvd dvd_def mult.commute)
  with assms(2) have "a + PGSIZE - 1 < (j + 1) * PGSIZE"
    by (simp add: PGSIZE_def)
  then have "(a + PGSIZE - 1) div PGSIZE < j + 1"
    by (simp add: PGSIZE_def less_mult_imp_div_less)
  then have "(a + PGSIZE - 1) div PGSIZE \<le> j"
    by simp
  then have "(a + PGSIZE - 1) div PGSIZE * PGSIZE \<le> j * PGSIZE"
    by (rule mult_le_mono1)
  with j show ?thesis
    by (simp add: PGROUNDUP_def)
qed

lemma filled_step:
  assumes ok: "cfg_ok cf" and f: "filled cf p s xs"
      and p: "p mod PGSIZE = 0" "kend cf \<le> p" "p + PGSIZE \<le> PHYSTOP cf"
  shows "fst (kfree cf p (s\<lparr>cnt := (cnt s)(p div PGSIZE := 1)\<rparr>)) = Returns () \<and>
         filled cf (p + PGSIZE) (snd (kfree cf p (s\<lparr>cnt := (cnt s)(p div PGSIZE := 1)\<rparr>))) (p # xs)"
proof -
  from p have mg: "managed cf p"
    by (simp add: managed_def PGSIZE_def)
  note b = managed_bounds [OF ok mg]
  from f have c: "chain (mem s) (freelist s) xs" and d: "distinct xs"
      and st: "set xs = {a. managed cf a \<and> a < p}" and z: "cnt s = (\<lambda>_. 0)"
    by (simp_all add: filled_def)
  have k: "kfree cf p (s\<lparr>cnt := (cnt s)(p div PGSIZE := 1)\<rparr>) =
      (Returns (), s\<lparr>cnt := (\<lambda>_. 0),
          mem := store64 (memset (mem s) p 1 PGSIZE) p (freelist s), freelist := p\<rparr>)"
    using b z by (simp add: kfree_def Let_def fun_upd_idem)
  have notin: "p \<notin> set xs"
    by (simp add: st)
  have al: "\<forall>x\<in>set xs. x mod PGSIZE = 0 \<and> x < 2 ^ 64"
    using st managed_bounds [OF ok] by blast
  have c': "chain (store64 (memset (mem s) p 1 PGSIZE) p (freelist s)) p (p # xs)"
    by (rule chain_push [OF c al b(1) notin b(2)])
  have "{a. managed cf a \<and> a < p + PGSIZE} = insert p {a. managed cf a \<and> a < p}"
  proof (intro set_eqI iffI)
    fix a assume "a \<in> {a. managed cf a \<and> a < p + PGSIZE}"
    then have a: "managed cf a" "a < p + PGSIZE" by simp_all
    show "a \<in> insert p {a. managed cf a \<and> a < p}"
    proof (cases "a = p")
      case False
      from page_apart [OF managed_bounds(1) [OF ok a(1)] b(1) False, of 0] a
      show ?thesis by (simp add: PGSIZE_def)
    qed simp
  next
    fix a assume "a \<in> insert p {a. managed cf a \<and> a < p}"
    with mg show "a \<in> {a. managed cf a \<and> a < p + PGSIZE}"
      by (auto simp: PGSIZE_def)
  qed
  with c' d notin st show ?thesis
    by (simp add: k filled_def)
qed

declare freerange_loop.simps [simp del]

lemma freerange_loop_done:
  "\<not> p + PGSIZE \<le> pa_end \<Longrightarrow> freerange_loop cf p pa_end s = (Returns (), s)"
  by (subst freerange_loop.simps) simp

lemma freerange_loop_step:
  assumes "p + PGSIZE \<le> pa_end" "p div PGSIZE < ncnt cf"
      and "fst (kfree cf p (s\<lparr>cnt := (cnt s)(p div PGSIZE := 1)\<rparr>)) = Returns ()"
  shows "freerange_loop cf p pa_end s =
           freerange_loop cf (p + PGSIZE) pa_end
             (snd (kfree cf p (s\<lparr>cnt := (cnt s)(p div PGSIZE := 1)\<rparr>)))"
  using assms by (subst freerange_loop.simps) (auto split: prod.splits res.splits)

lemma freerange_loop_filled:
  assumes ok: "cfg_ok cf"
  shows "filled cf p s xs \<Longrightarrow> p mod PGSIZE = 0 \<Longrightarrow> kend cf \<le> p \<Longrightarrow> p \<le> PHYSTOP cf \<Longrightarrow>
         fst (freerange_loop cf p (PHYSTOP cf) s) = Returns () \<and>
         (\<exists>ys. filled cf (PHYSTOP cf) (snd (freerange_loop cf p (PHYSTOP cf) s)) ys)"
proof (induction "PHYSTOP cf - p" arbitrary: p s xs rule: less_induct)
  case less
  show ?case
  proof (cases "p + PGSIZE \<le> PHYSTOP cf")
    case False
    have "PGSIZE dvd PHYSTOP cf - p"
      using ok less.prems by (simp add: cfg_ok_def mod_eq_0_iff_dvd)
    then obtain k where k: "PHYSTOP cf - p = PGSIZE * k"
      by (auto simp: dvd_def)
    with False have "k = 0"
      by (cases k) (auto simp: PGSIZE_def)
    with k less.prems have "p = PHYSTOP cf"
      by simp
    with False less.prems show ?thesis
      by (auto simp: freerange_loop_done)
  next
    case True
    let ?s1 = "s\<lparr>cnt := (cnt s)(p div PGSIZE := 1)\<rparr>"
    from filled_step [OF ok less.prems(1,2,3) True]
    have r: "fst (kfree cf p ?s1) = Returns ()"
      and f: "filled cf (p + PGSIZE) (snd (kfree cf p ?s1)) (p # xs)"
      by simp_all
    have mg: "managed cf p"
      using less.prems True by (simp add: managed_def PGSIZE_def)
    have ix: "p div PGSIZE < ncnt cf"
      by (rule managed_bounds(4) [OF ok mg])
    have step: "freerange_loop cf p (PHYSTOP cf) s =
        freerange_loop cf (p + PGSIZE) (PHYSTOP cf) (snd (kfree cf p ?s1))"
      by (rule freerange_loop_step [OF True ix r])
    have "PHYSTOP cf - (p + PGSIZE) < PHYSTOP cf - p"
      using True by (simp add: PGSIZE_def)
    from less.hyps [OF this f] less.prems True show ?thesis
      by (simp add: step PGSIZE_def)
  qed
qed

lemma kinit_kinv:
  assumes ok: "cfg_ok cf"
  shows "fst (kinit cf (boot m0)) = Returns () \<and> (\<exists>xs. kinv cf (snd (kinit cf (boot m0))) xs)"
proof -
  have a: "PGROUNDUP (kend cf) mod PGSIZE = 0" "kend cf \<le> PGROUNDUP (kend cf)"
      "PGROUNDUP (kend cf) \<le> PHYSTOP cf"
    using ok by (simp_all add: PGROUNDUP_aligned PGROUNDUP_ge PGROUNDUP_least cfg_ok_def)
  have "PGROUNDUP (kend cf) \<le> x" if "managed cf x" for x
    using that by (intro PGROUNDUP_least) (simp_all add: managed_def)
  then have "{a. managed cf a \<and> a < PGROUNDUP (kend cf)} = {}"
    by fastforce
  then have "filled cf (PGROUNDUP (kend cf)) (boot m0) []"
    by (simp add: filled_def boot_def)
  from freerange_loop_filled [OF ok this a]
  obtain ys where r: "fst (kinit cf (boot m0)) = Returns ()"
      and f: "filled cf (PHYSTOP cf) (snd (kinit cf (boot m0))) ys"
    by (auto simp: kinit_def freerange_def)
  from f have "kinv cf (snd (kinit cf (boot m0))) ys"
    by (auto simp: filled_def kinv_def managed_def)
  with r show ?thesis
    by blast
qed

lemma cf0_simps: "kend cf0 = 4096" "PHYSTOP cf0 = 12288" "ncnt cf0 = 3" "PGROUNDUP 4096 = 4096"
  by (simp_all add: cf0_def ncnt_def PGSIZE_def PGROUNDUP_def)

lemma kinit_cf0:
  "kinit cf0 (boot m0) =
     (Returns (),
      \<lparr>cnt = (\<lambda>_. 0), freelist = 8192,
       mem = store64 (memset (store64 (memset m0 4096 1 PGSIZE) 4096 0) 8192 1 PGSIZE) 8192 4096\<rparr>)"
  unfolding kinit_def freerange_def cf0_simps
  apply (subst freerange_loop.simps)
  apply (simp add: cf0_simps kfree_def bad_pa_def boot_def PGSIZE_def Let_def fun_upd_idem)
  apply (subst freerange_loop.simps)
  apply (simp add: cf0_simps kfree_def bad_pa_def boot_def PGSIZE_def Let_def fun_upd_idem)
  apply (subst freerange_loop.simps)
  apply (simp add: cf0_simps kfree_def bad_pa_def boot_def PGSIZE_def Let_def fun_upd_idem)
  done


lemma kinit_filled:
  assumes ok: "cfg_ok cf"
  shows "fst (kinit cf (boot m0)) = Returns () \<and>
         (\<exists>xs. filled cf (PHYSTOP cf) (snd (kinit cf (boot m0))) xs)"
proof -
  have a: "PGROUNDUP (kend cf) mod PGSIZE = 0" "kend cf \<le> PGROUNDUP (kend cf)"
      "PGROUNDUP (kend cf) \<le> PHYSTOP cf"
    using ok by (simp_all add: PGROUNDUP_aligned PGROUNDUP_ge PGROUNDUP_least cfg_ok_def)
  have "PGROUNDUP (kend cf) \<le> x" if "managed cf x" for x
    using that by (intro PGROUNDUP_least) (simp_all add: managed_def)
  then have "{a. managed cf a \<and> a < PGROUNDUP (kend cf)} = {}"
    by fastforce
  then have "filled cf (PGROUNDUP (kend cf)) (boot m0) []"
    by (simp add: filled_def boot_def)
  from freerange_loop_filled [OF ok this a] show ?thesis
    by (simp add: kinit_def freerange_def)
qed

lemma filled_kinv: "filled cf (PHYSTOP cf) s xs \<Longrightarrow> kinv cf s xs"
  by (auto simp: filled_def kinv_def managed_def)

lemma filled_all_free:
  "filled cf (PHYSTOP cf) s xs \<Longrightarrow> managed cf a \<Longrightarrow>
   on_freelist s a \<and> cnt s (a div PGSIZE) = 0"
  using chain_reach [of "mem s" "freelist s" xs a]
  by (simp add: filled_def on_freelist_def managed_def)

lemma cfg_ok0: "cfg_ok cf0"
  by (simp add: cfg_ok_def cf0_def PGSIZE_def)

subsection \<open>Page-table entries\<close>

lemma bit_PTE_V: "bit PTE_V n \<longleftrightarrow> n = 0"
  by (simp add: PTE_V_def bit_1_iff)

lemma bit_PTE_W: "bit PTE_W n \<longleftrightarrow> n = 2"
proof -
  have w: "PTE_W = 2 ^ 2"
    by (simp add: PTE_W_def)
  have "bit PTE_W n \<longleftrightarrow> possible_bit TYPE(64 word) n \<and> n = 2"
    unfolding w by (rule bit_exp_iff)
  then show ?thesis
    by (auto simp: possible_bit_word)
qed

lemma bit_PTE_FLAGS: "bit (PTE_FLAGS e) n \<longleftrightarrow> n < 10 \<and> bit e n"
proof -
  have "(1023 :: 64 word) = mask 10"
    by (simp add: mask_eq_exp_minus_1)
  then have "PTE_FLAGS e = take_bit 10 e"
    by (simp only: PTE_FLAGS_def take_bit_eq_mask)
  then show ?thesis
    by (simp only: bit_take_bit_iff)
qed

lemma bit_PA2PTE: "n < 10 \<Longrightarrow> \<not> bit (PA2PTE pa) n"
  by (simp add: PA2PTE_def bit_push_bit_iff)

lemma bit0_V: "e AND PTE_V \<noteq> 0 \<longleftrightarrow> bit e 0" for e :: "64 word"
proof -
  have "e AND PTE_V = of_bool (odd e)"
    by (simp only: PTE_V_def and_one_eq mod_2_eq_odd)
  then show ?thesis
    by (simp only: bit_0 of_bool_eq_0_iff not_not)
qed

lemma flags_after:
  assumes "e AND PTE_V \<noteq> 0" "f AND PTE_V = 0"
  shows "PTE_FLAGS (PA2PTE pa OR ((PTE_FLAGS (e AND NOT PTE_V) OR PTE_W) AND NOT f) OR PTE_V) =
         (PTE_FLAGS e OR PTE_W) AND NOT f"
proof -
  from assms have e0: "bit e 0" and f0: "\<not> bit f 0"
    using bit0_V [of e] bit0_V [of f] by simp_all
  show ?thesis
  proof (rule bit_eqI)
    fix n
    show "bit (PTE_FLAGS (PA2PTE pa OR ((PTE_FLAGS (e AND NOT PTE_V) OR PTE_W) AND NOT f) OR PTE_V)) n
          \<longleftrightarrow> bit ((PTE_FLAGS e OR PTE_W) AND NOT f) n"
      using e0 f0 bit_PA2PTE [of n pa]
      by (cases "n = 0")
         (auto simp only: bit_PTE_FLAGS bit_PTE_V bit_PTE_W bit_and_iff bit_or_iff bit_not_iff
            possible_bit_word len_of_numeral_defs)
  qed
qed


lemma aligned_low_bits:
  fixes pa :: nat
  assumes "pa mod PGSIZE = 0" "n < 12"
  shows "\<not> bit pa n"
proof -
  from assms(1) have "pa mod 2 ^ 12 = 0"
    by (simp add: PGSIZE_def)
  then have "take_bit 12 pa = 0"
    by (simp only: take_bit_eq_mod)
  then have "\<not> bit (take_bit 12 pa) n"
    by simp
  with assms(2) show ?thesis
    by (simp add: bit_take_bit_iff)
qed

lemma bit_PA2PTE_hi:
  assumes "10 \<le> m"
  shows "bit (PA2PTE pa) m \<longleftrightarrow> m + 2 < 64 \<and> bit pa (m + 2)"
proof -
  from assms have "12 + (m - 10) = m + 2"
    by simp
  with assms show ?thesis
    by (auto simp: PA2PTE_def bit_push_bit_iff bit_drop_bit_eq bit_of_nat_iff possible_bit_word)
qed

lemma bit_entry_hi:
  assumes "10 \<le> m"
  shows "bit (PA2PTE pa OR ((PTE_FLAGS e OR PTE_W) AND NOT f) OR PTE_V) m \<longleftrightarrow>
         bit (PA2PTE pa) m"
  using assms by (auto simp: bit_or_iff bit_and_iff bit_PTE_FLAGS bit_PTE_W bit_PTE_V)

lemma pa_after:
  assumes "pa mod PGSIZE = 0" "pa < 2 ^ 64"
  shows "PTE2PA (PA2PTE pa OR ((PTE_FLAGS e OR PTE_W) AND NOT f) OR PTE_V) = pa"
proof -
  let ?x = "PA2PTE pa OR ((PTE_FLAGS e OR PTE_W) AND NOT f) OR PTE_V"
  have "push_bit 12 (drop_bit 10 ?x) = (of_nat pa :: 64 word)"
  proof (rule bit_eqI)
    fix n
    show "bit (push_bit 12 (drop_bit 10 ?x)) n \<longleftrightarrow> bit (of_nat pa :: 64 word) n"
    proof (cases "n < 12")
      case True
      with aligned_low_bits [OF assms(1) True] show ?thesis
        by (simp only: bit_push_bit_iff bit_of_nat_iff) simp
    next
      case False
      then have n: "12 \<le> n" "10 \<le> 10 + (n - 12)" "10 + (n - 12) + 2 = n"
        by simp_all
      have "bit (push_bit 12 (drop_bit 10 ?x)) n \<longleftrightarrow>
              possible_bit TYPE(64 word) n \<and> bit ?x (10 + (n - 12))"
        using n(1) by (simp only: bit_push_bit_iff bit_drop_bit_eq) simp
      also have "\<dots> \<longleftrightarrow> n < 64 \<and> bit pa n"
        by (simp only: bit_entry_hi [OF n(2)] bit_PA2PTE_hi [OF n(2)] n(3) possible_bit_word)
           auto
      also have "\<dots> \<longleftrightarrow> bit (of_nat pa :: 64 word) n"
        by (simp add: bit_of_nat_iff possible_bit_word)
      finally show ?thesis .
    qed
  qed
  then show ?thesis
    using assms(2) by (simp add: PTE2PA_def unat_of_nat)
qed

lemma PGROUNDDOWN_aligned: "a mod PGSIZE = 0 \<Longrightarrow> PGROUNDDOWN a = a"
  by (simp add: PGROUNDDOWN_def mod_eq_0_iff_dvd)

lemma walk_aligned: "va mod PGSIZE = 0 \<Longrightarrow> walk pt va = pt va"
  by (simp add: walk_def PGROUNDDOWN_aligned)

lemma mappages_one:
  assumes "va mod PGSIZE = 0" "pt va = Some e" "e AND PTE_V = 0"
  shows "mappages pt va PGSIZE pa perm = Some (pt(va \<mapsto> PA2PTE pa OR perm OR PTE_V))"
proof -
  have "PGROUNDDOWN (va + PGSIZE - 1) = va"
  proof -
    from assms(1) obtain i where "va = i * PGSIZE"
      by (auto simp: mod_eq_0_iff_dvd dvd_def mult.commute)
    then show ?thesis
      by (simp add: PGROUNDDOWN_def PGSIZE_def)
  qed
  with assms show ?thesis
    by (simp add: mappages_def PGROUNDDOWN_aligned Let_def)
qed

lemma clear_V: "(e AND NOT PTE_V) AND PTE_V = 0"
  by (simp add: and.assoc)

lemma restore_V: "e AND PTE_V \<noteq> 0 \<Longrightarrow> (e AND NOT PTE_V) OR PTE_V = e"
proof (rule bit_eqI)
  fix n assume "e AND PTE_V \<noteq> 0"
  then have "bit e 0" by (simp add: bit0_V)
  then show "bit ((e AND NOT PTE_V) OR PTE_V) n = bit e n"
    by (cases "n = 0")
       (auto simp: bit_or_iff bit_and_iff bit_not_iff bit_PTE_V dest: bit_imp_le_length)
qed

lemma memmove_in: "dst \<le> x \<Longrightarrow> x < dst + n \<Longrightarrow> memmove m dst src n x = m (src + (x - dst))"
  by (simp add: memmove_def)

lemma memmove_out: "x < dst \<or> dst + n \<le> x \<Longrightarrow> memmove m dst src n x = m x"
  by (auto simp: memmove_def)

lemma chain_memmove:
  assumes "\<forall>x\<in>set xs. x mod PGSIZE = 0" "r mod PGSIZE = 0" "r \<notin> set xs"
  shows "chain (memmove m r src PGSIZE) p xs = chain m p xs"
proof (rule chain_cong)
  fix x k :: nat assume x: "x \<in> set xs" and k: "k < 8"
  with assms have "x mod PGSIZE = 0" "x \<noteq> r" by auto
  from page_apart [OF this(1) assms(2) this(2), of k] k
  show "memmove m r src PGSIZE (x + k) = m (x + k)"
    by (intro memmove_out) (simp add: PGSIZE_def)
qed

subsection \<open>The branches of cowalloc\<close>

lemma kinv_head:
  assumes "cfg_ok cf" "kinv cf s (r # rest)"
  shows "freelist s = r" "r \<noteq> 0" "managed cf r" "r \<notin> set rest" "cnt s (r div PGSIZE) = 0"
    "chain (mem s) (load64 (mem s) r) rest" "\<forall>x\<in>set rest. x mod PGSIZE = 0 \<and> x < 2 ^ 64"
proof -
  from assms(2) show "freelist s = r" "r \<noteq> 0" "managed cf r" "r \<notin> set rest"
    "chain (mem s) (load64 (mem s) r) rest"
    by (auto simp: kinv_def)
  from assms(2) show "cnt s (r div PGSIZE) = 0"
    by (auto simp: kinv_def)
  from assms(2) have "\<forall>x\<in>set rest. managed cf x"
    by (simp add: kinv_def)
  with managed_bounds [OF assms(1)] show "\<forall>x\<in>set rest. x mod PGSIZE = 0 \<and> x < 2 ^ 64"
    by blast
qed

lemma cowalloc_unmapped:
  "va mod PGSIZE = 0 \<Longrightarrow> walkaddr pt va = 0 \<Longrightarrow> cowalloc cf mp pt va s = (Returns 0, pt, s)"
  by (simp add: cowalloc_def)

lemma walkaddr_mapped:
  assumes "va mod PGSIZE = 0" "pt va = Some e" "e AND PTE_V \<noteq> 0" "e AND PTE_U \<noteq> 0"
  shows "walkaddr pt va = PTE2PA e" "walk pt va = Some e"
  using assms by (simp_all add: walkaddr_def walk_aligned)

lemma cowalloc_sole:
  assumes "va mod PGSIZE = 0" "pt va = Some e" "e AND PTE_V \<noteq> 0" "e AND PTE_U \<noteq> 0"
      and "PTE2PA e = pa" "pa \<noteq> 0" "pa div PGSIZE < ncnt cf" "cnt s (pa div PGSIZE) = 1"
  shows "cowalloc cf mp pt va s = (Returns pa, pt(va \<mapsto> (e OR PTE_W) AND NOT (PTE_F cf)), s)"
  using assms by (simp add: cowalloc_def walkaddr_mapped krefcnt_def)

lemma cowalloc_nomem:
  assumes "va mod PGSIZE = 0" "pt va = Some e" "e AND PTE_V \<noteq> 0" "e AND PTE_U \<noteq> 0"
      and "PTE2PA e = pa" "pa \<noteq> 0" "pa div PGSIZE < ncnt cf" "cnt s (pa div PGSIZE) \<noteq> 1"
      and "freelist s = 0"
  shows "cowalloc cf mp pt va s = (Returns 0, pt, s)"
  using assms by (simp add: cowalloc_def walkaddr_mapped krefcnt_def kalloc_def)

lemma cowalloc_copy:
  assumes "va mod PGSIZE = 0" "pt va = Some e" "e AND PTE_V \<noteq> 0" "e AND PTE_U \<noteq> 0"
      and "PTE2PA e = pa" "pa \<noteq> 0" "pa div PGSIZE < ncnt cf" "cnt s (pa div PGSIZE) \<noteq> 1"
      and "kalloc cf s = (Returns r, s1)" "r \<noteq> 0"
      and "mp (pt(va \<mapsto> e AND NOT PTE_V)) va PGSIZE r
             ((PTE_FLAGS (e AND NOT PTE_V) OR PTE_W) AND NOT (PTE_F cf)) = Some pt2"
      and "kfree cf (PGROUNDDOWN pa) (s1\<lparr>mem := memmove (mem s1) r pa PGSIZE\<rparr>) = (Returns (), s3)"
  shows "cowalloc cf mp pt va s = (Returns r, pt2, s3)"
  using assms by (simp add: cowalloc_def walkaddr_mapped krefcnt_def Let_def)

lemma cowalloc_mapfail:
  assumes "va mod PGSIZE = 0" "pt va = Some e" "e AND PTE_V \<noteq> 0" "e AND PTE_U \<noteq> 0"
      and "PTE2PA e = pa" "pa \<noteq> 0" "pa div PGSIZE < ncnt cf" "cnt s (pa div PGSIZE) \<noteq> 1"
      and "kalloc cf s = (Returns r, s1)" "r \<noteq> 0"
      and "mp (pt(va \<mapsto> e AND NOT PTE_V)) va PGSIZE r
             ((PTE_FLAGS (e AND NOT PTE_V) OR PTE_W) AND NOT (PTE_F cf)) = None"
      and "kfree cf r (s1\<lparr>mem := memmove (mem s1) r pa PGSIZE\<rparr>) = (Returns (), s3)"
  shows "cowalloc cf mp pt va s = (Returns 0, pt, s3)"
proof -
  have "(pt(va \<mapsto> e AND NOT PTE_V))(va \<mapsto> (e AND NOT PTE_V) OR PTE_V) = pt"
    using assms(2,3) by (simp add: restore_V fun_upd_idem)
  with assms show ?thesis
    by (simp add: cowalloc_def walkaddr_mapped krefcnt_def Let_def)
qed

lemma kinv_kalloc_head:
  assumes ok: "cfg_ok cf" and inv: "kinv cf s (r # rest)"
  shows "kalloc cf s =
           (Returns r, s\<lparr>freelist := load64 (mem s) r, cnt := (cnt s)(r div PGSIZE := 1),
                           mem := memset (mem s) r 5 PGSIZE\<rparr>)"
  using kinv_head [OF ok inv] managed_bounds [OF ok, of r]
  by (simp add: kalloc_def Let_def)

subsection \<open>The example states\<close>

lemma e0: "(2323 :: pte) AND PTE_V \<noteq> 0" "(2323 :: pte) AND PTE_U \<noteq> 0" "PTE2PA 2323 = 8192"
  by (simp_all add: PTE_V_def PTE_U_def PTE2PA_def)

lemma load64_memset_out: "a + 8 \<le> r \<or> r + n \<le> a \<Longrightarrow> load64 (memset m r c n) a = load64 m a"
  by (intro load64_cong memset_out) auto

lemma load64_store64_out: "a + 8 \<le> r \<or> r + 8 \<le> a \<Longrightarrow> load64 (store64 m r v) a = load64 m a"
  by (intro load64_cong store64_out) auto

lemma states0:
  "cnt shared0 2 = 2" "freelist shared0 = 4096" "cnt sole0 2 = 1" "cnt full0 2 = 2"
  "freelist full0 = 0"
  by (simp_all add: shared0_def sole0_def full0_def kinit_cf0 kalloc_def kaddrefcnt_def
        bad_pa_def cf0_simps Let_def PGSIZE_def load64_store64 load64_memset_out
        load64_store64_out)

lemma owned0:
  "owned_run cf0 [Kalloc, Kaddrefcnt 8192] (snd (kinit cf0 (boot (\<lambda>_. 0))))"
  "owned_run cf0 [Kalloc] (snd (kinit cf0 (boot (\<lambda>_. 0))))"
  "owned_run cf0 [Kalloc, Kalloc, Kaddrefcnt 8192] (snd (kinit cf0 (boot (\<lambda>_. 0))))"
  by (simp_all add: kinit_cf0 kalloc_def kaddrefcnt_def kfree_def bad_pa_def cf0_simps Let_def
          PGSIZE_def load64_store64 load64_memset_out load64_store64_out word_sless_alt)

lemma kinv0: "\<exists>xs. kinv cf0 shared0 xs" "\<exists>xs. kinv cf0 sole0 xs" "\<exists>xs. kinv cf0 full0 xs"
proof -
  from kinit_filled [OF cfg_ok0, of "\<lambda>_. 0"] obtain xs
    where "filled cf0 (PHYSTOP cf0) (snd (kinit cf0 (boot (\<lambda>_. 0)))) xs"
    by blast
  then have i: "kinv cf0 (snd (kinit cf0 (boot (\<lambda>_. 0)))) xs"
    by (rule filled_kinv)
  show "\<exists>xs. kinv cf0 shared0 xs" "\<exists>xs. kinv cf0 sole0 xs" "\<exists>xs. kinv cf0 full0 xs"
    unfolding shared0_def sole0_def full0_def
    by (rule kinv_krun [OF cfg_ok0 i owned0(1)], rule kinv_krun [OF cfg_ok0 i owned0(2)],
        rule kinv_krun [OF cfg_ok0 i owned0(3)])
qed

section \<open>The claims about the page allocator\<close>

subsection \<open>kfree\<close>

text \<open>
  C6. \<open>kfree pa\<close> ends in \<^verbatim>\<open>panic("kfree")\<close>, the state untouched, when \<open>pa\<close> is not a
  multiple of the page size, is below \<^verbatim>\<open>end\<close>, or is \<^verbatim>\<open>PHYSTOP\<close> or more. Otherwise
  (with \<^verbatim>\<open>PHYSTOP\<close> on a page boundary, so that the index stays inside \<^verbatim>\<open>ref.cnt\<close>) it
  takes one off \<open>ref.cnt[pa / PGSIZE]\<close>. Exactly when the count has become zero it
  fills all 4096 bytes of the page with the byte 1 and then links the page in front of
  the free list: \<^verbatim>\<open>kmem.freelist\<close> is \<open>pa\<close>, the first eight bytes of the page hold the
  old head, the other bytes of the page are 1, memory outside the page is as before.
  When the count is still not zero, free list and memory are unchanged.
\<close>

theorem kfree_panics_or_releases:
  "(pa mod PGSIZE \<noteq> 0 \<or> pa < kend cf \<or> PHYSTOP cf \<le> pa \<longrightarrow>
      kfree cf pa s = (Panics ''kfree'', s)) \<and>
   (\<not> (pa mod PGSIZE \<noteq> 0 \<or> pa < kend cf \<or> PHYSTOP cf \<le> pa) \<and> PHYSTOP cf mod PGSIZE = 0 \<longrightarrow>
      fst (kfree cf pa s) = Returns () \<and>
      cnt (snd (kfree cf pa s)) = (cnt s)(pa div PGSIZE := cnt s (pa div PGSIZE) - 1) \<and>
      (cnt s (pa div PGSIZE) - 1 = 0 \<longrightarrow>
         freelist (snd (kfree cf pa s)) = pa \<and>
         mem (snd (kfree cf pa s)) = store64 (memset (mem s) pa 1 PGSIZE) pa (freelist s) \<and>
         (\<forall>x. pa \<le> x \<and> x < pa + PGSIZE \<longrightarrow> memset (mem s) pa 1 PGSIZE x = 1) \<and>
         (\<forall>x. pa + 8 \<le> x \<and> x < pa + PGSIZE \<longrightarrow> mem (snd (kfree cf pa s)) x = 1) \<and>
         (\<forall>x. x < pa \<or> pa + PGSIZE \<le> x \<longrightarrow> mem (snd (kfree cf pa s)) x = mem s x) \<and>
         (freelist s < 2 ^ 64 \<longrightarrow> load64 (mem (snd (kfree cf pa s))) pa = freelist s) \<and>
         (\<forall>xs. chain (mem s) (freelist s) xs \<and> (\<forall>x\<in>set xs. x mod PGSIZE = 0 \<and> x < 2 ^ 64) \<and>
               pa \<notin> set xs \<and> 0 < pa \<longrightarrow>
               chain (mem (snd (kfree cf pa s))) (freelist (snd (kfree cf pa s))) (pa # xs))) \<and>
      (cnt s (pa div PGSIZE) - 1 \<noteq> 0 \<longrightarrow>
         freelist (snd (kfree cf pa s)) = freelist s \<and> mem (snd (kfree cf pa s)) = mem s))"
proof (cases "bad_pa cf pa")
  case True
  then show ?thesis
    by (simp add: kfree_def bad_pa_def not_less)
next
  case good: False
  show ?thesis
  proof (cases "PHYSTOP cf mod PGSIZE = 0")
    case False
    with good show ?thesis
      by (simp add: bad_pa_def not_less)
  next
    case True
    from good have al: "pa mod PGSIZE = 0" and lt: "pa < PHYSTOP cf"
      by (simp_all add: bad_pa_def)
    have ix: "pa div PGSIZE < ncnt cf"
      by (rule index_in_bounds [OF True lt])
    show ?thesis
    proof (cases "cnt s (pa div PGSIZE) - 1 = 0")
      case nz: False
      with good ix show ?thesis
        by (simp add: kfree_def Let_def bad_pa_def not_less)
    next
      case z: True
      let ?m = "store64 (memset (mem s) pa 1 PGSIZE) pa (freelist s)"
      let ?s = "snd (kfree cf pa s)"
      have k: "kfree cf pa s =
          (Returns (), s\<lparr>cnt := (cnt s)(pa div PGSIZE := cnt s (pa div PGSIZE) - 1),
                         mem := ?m, freelist := pa\<rparr>)"
        using good ix z by (simp add: kfree_def Let_def)
      have A: "fst (kfree cf pa s) = Returns ()"
        and B: "cnt ?s = (cnt s)(pa div PGSIZE := cnt s (pa div PGSIZE) - 1)"
        and C: "freelist ?s = pa" and D: "mem ?s = ?m"
        by (simp_all add: k)
      have E: "\<forall>x. pa \<le> x \<and> x < pa + PGSIZE \<longrightarrow> memset (mem s) pa 1 PGSIZE x = 1"
        by (simp add: memset_in)
      have F: "\<forall>x. pa + 8 \<le> x \<and> x < pa + PGSIZE \<longrightarrow> mem ?s x = 1"
        by (simp add: D store64_out memset_in)
      have G: "\<forall>x. x < pa \<or> pa + PGSIZE \<le> x \<longrightarrow> mem ?s x = mem s x"
        by (auto simp: D store64_out memset_out PGSIZE_def)
      have H: "freelist s < 2 ^ 64 \<longrightarrow> load64 (mem ?s) pa = freelist s"
        by (simp add: D load64_store64)
      have I: "\<forall>xs. chain (mem s) (freelist s) xs \<and>
                  (\<forall>x\<in>set xs. x mod PGSIZE = 0 \<and> x < 2 ^ 64) \<and> pa \<notin> set xs \<and> 0 < pa \<longrightarrow>
                  chain (mem ?s) (freelist ?s) (pa # xs)"
      proof (intro allI impI)
        fix xs
        assume h: "chain (mem s) (freelist s) xs \<and>
                  (\<forall>x\<in>set xs. x mod PGSIZE = 0 \<and> x < 2 ^ 64) \<and> pa \<notin> set xs \<and> 0 < pa"
        then have f: "freelist s < 2 ^ 64"
          by (cases xs) auto
        have "chain ?m (freelist s) xs = chain (mem s) (freelist s) xs"
          using h al by (simp add: chain_store64 chain_memset)
        with h f show "chain (mem ?s) (freelist ?s) (pa # xs)"
          by (simp add: C D load64_store64)
      qed
      have nb: "\<not> (pa mod PGSIZE \<noteq> 0 \<or> pa < kend cf \<or> PHYSTOP cf \<le> pa)"
        using good by (simp add: bad_pa_def not_less)
      from nb A B C D E F G H I z show ?thesis
        by blast
    qed
  qed
qed

theorem kfree_panics_or_releases_witness:
  "kfree cf0 100 sole0 = (Panics ''kfree'', sole0) \<and>
   kfree cf0 0 sole0 = (Panics ''kfree'', sole0) \<and>
   kfree cf0 12288 sole0 = (Panics ''kfree'', sole0) \<and>
   fst (kfree cf0 8192 sole0) = Returns () \<and>
   cnt (snd (kfree cf0 8192 sole0)) 2 = 0 \<and>
   freelist (snd (kfree cf0 8192 sole0)) = 8192 \<and>
   load64 (mem (snd (kfree cf0 8192 sole0))) 8192 = 4096 \<and>
   mem (snd (kfree cf0 8192 sole0)) 8200 = 1 \<and>
   cnt (snd (kfree cf0 8192 shared0)) 2 = 1 \<and>
   freelist (snd (kfree cf0 8192 shared0)) = freelist shared0 \<and>
   mem (snd (kfree cf0 8192 shared0)) = mem shared0"
proof -
  have a: "PHYSTOP cf0 mod PGSIZE = 0"
    by (simp add: cf0_def PGSIZE_def)
  have bad: "100 mod PGSIZE \<noteq> 0 \<or> 100 < kend cf0 \<or> PHYSTOP cf0 \<le> 100"
      "0 mod PGSIZE \<noteq> 0 \<or> 0 < kend cf0 \<or> PHYSTOP cf0 \<le> 0"
      "12288 mod PGSIZE \<noteq> 0 \<or> 12288 < kend cf0 \<or> PHYSTOP cf0 \<le> 12288"
    by (simp_all add: cf0_def PGSIZE_def)
  have good: "\<not> (8192 mod PGSIZE \<noteq> 0 \<or> 8192 < kend cf0 \<or> PHYSTOP cf0 \<le> 8192)"
    by (simp add: cf0_def PGSIZE_def)
  have ix: "8192 div PGSIZE = 2"
    by (simp add: PGSIZE_def)
  have f: "freelist sole0 = 4096"
    by (simp add: sole0_def kinit_cf0 kalloc_def cf0_simps Let_def PGSIZE_def load64_store64)
  from kfree_panics_or_releases [of 100 cf0 sole0] kfree_panics_or_releases [of 0 cf0 sole0]
    kfree_panics_or_releases [of 12288 cf0 sole0] bad
  have 1: "kfree cf0 100 sole0 = (Panics ''kfree'', sole0)"
      "kfree cf0 0 sole0 = (Panics ''kfree'', sole0)"
      "kfree cf0 12288 sole0 = (Panics ''kfree'', sole0)"
    by blast+
  from kfree_panics_or_releases [of 8192 cf0 sole0] good a states0(3) f
  have 2: "fst (kfree cf0 8192 sole0) = Returns ()"
      "cnt (snd (kfree cf0 8192 sole0)) 2 = 0"
      "freelist (snd (kfree cf0 8192 sole0)) = 8192"
      "load64 (mem (snd (kfree cf0 8192 sole0))) 8192 = 4096"
      "mem (snd (kfree cf0 8192 sole0)) 8200 = 1"
    by (simp_all add: ix PGSIZE_def load64_store64 store64_out memset_in)
  from kfree_panics_or_releases [of 8192 cf0 shared0] good a states0(1)
  have 3: "cnt (snd (kfree cf0 8192 shared0)) 2 = 1"
      "freelist (snd (kfree cf0 8192 shared0)) = freelist shared0"
      "mem (snd (kfree cf0 8192 shared0)) = mem shared0"
    by (simp_all add: ix)
  from 1 2 3 show ?thesis
    by simp
qed

subsection \<open>kalloc\<close>

text \<open>
  C7. For a free list whose head, if there is one, lies below \<^verbatim>\<open>PHYSTOP\<close> (inside
  \<^verbatim>\<open>ref.cnt\<close>): \<open>kalloc\<close> returns null exactly when \<^verbatim>\<open>kmem.freelist\<close> is null, and then
  changes nothing. Otherwise it returns the head page \<open>r\<close>, makes the \<^verbatim>\<open>next\<close> pointer
  read from \<open>r\<close> the new head (the free list is the old one without its first page),
  sets \<open>ref.cnt[r / PGSIZE]\<close> to 1, and fills all 4096 bytes of \<open>r\<close> with the byte 5;
  memory outside the page is as before.
\<close>

theorem kalloc_pops_head:
  assumes "freelist s \<noteq> 0 \<longrightarrow> freelist s div PGSIZE < ncnt cf"
  shows "(fst (kalloc cf s) = Returns 0 \<longleftrightarrow> freelist s = 0) \<and>
         (freelist s = 0 \<longrightarrow> kalloc cf s = (Returns 0, s)) \<and>
         (freelist s \<noteq> 0 \<longrightarrow>
            fst (kalloc cf s) = Returns (freelist s) \<and>
            freelist (snd (kalloc cf s)) = load64 (mem s) (freelist s) \<and>
            cnt (snd (kalloc cf s)) = (cnt s)(freelist s div PGSIZE := 1) \<and>
            (\<forall>x. freelist s \<le> x \<and> x < freelist s + PGSIZE \<longrightarrow> mem (snd (kalloc cf s)) x = 5) \<and>
            (\<forall>x. x < freelist s \<or> freelist s + PGSIZE \<le> x \<longrightarrow>
                  mem (snd (kalloc cf s)) x = mem s x) \<and>
            (\<forall>xs. chain (mem s) (freelist s) (freelist s # xs) \<and> freelist s \<notin> set xs \<and>
                  freelist s mod PGSIZE = 0 \<and> (\<forall>x\<in>set xs. x mod PGSIZE = 0) \<longrightarrow>
                  chain (mem (snd (kalloc cf s))) (freelist (snd (kalloc cf s))) xs))"
proof (cases "freelist s = 0")
  case True
  then show ?thesis
    by (simp add: kalloc_def)
next
  case False
  let ?r = "freelist s"
  have k: "kalloc cf s =
      (Returns ?r, s\<lparr>freelist := load64 (mem s) ?r, cnt := (cnt s)(?r div PGSIZE := 1),
                      mem := memset (mem s) ?r 5 PGSIZE\<rparr>)"
    using False assms by (simp add: kalloc_def Let_def)
  have A: "\<forall>xs. chain (mem s) ?r (?r # xs) \<and> ?r \<notin> set xs \<and>
                  ?r mod PGSIZE = 0 \<and> (\<forall>x\<in>set xs. x mod PGSIZE = 0) \<longrightarrow>
                  chain (mem (snd (kalloc cf s))) (freelist (snd (kalloc cf s))) xs"
    by (simp add: k chain_memset)
  have B: "\<forall>x. ?r \<le> x \<and> x < ?r + PGSIZE \<longrightarrow> mem (snd (kalloc cf s)) x = 5"
    by (simp add: k memset_in)
  have C: "\<forall>x. x < ?r \<or> ?r + PGSIZE \<le> x \<longrightarrow> mem (snd (kalloc cf s)) x = mem s x"
    by (auto simp: k memset_out)
  have D: "fst (kalloc cf s) = Returns ?r"
    "freelist (snd (kalloc cf s)) = load64 (mem s) ?r"
    "cnt (snd (kalloc cf s)) = (cnt s)(?r div PGSIZE := 1)"
    by (simp_all add: k)
  from False A B C D show ?thesis
    by auto
qed

theorem kalloc_pops_head_witness:
  "kalloc cf0 full0 = (Returns 0, full0) \<and>
   fst (kalloc cf0 sole0) = Returns 4096 \<and>
   freelist (snd (kalloc cf0 sole0)) = 0 \<and>
   cnt (snd (kalloc cf0 sole0)) 1 = 1 \<and>
   mem (snd (kalloc cf0 sole0)) 4096 = 5 \<and>
   mem (snd (kalloc cf0 sole0)) 8191 = 5"
proof -
  have f: "freelist sole0 = 4096" "load64 (mem sole0) 4096 = 0"
    by (simp_all add: sole0_def kinit_cf0 kalloc_def cf0_simps Let_def PGSIZE_def
          load64_store64 load64_memset_out load64_store64_out)
  have h1: "freelist full0 \<noteq> 0 \<longrightarrow> freelist full0 div PGSIZE < ncnt cf0"
    by (simp add: states0)
  have h2: "freelist sole0 \<noteq> 0 \<longrightarrow> freelist sole0 div PGSIZE < ncnt cf0"
    by (simp add: f cf0_simps PGSIZE_def)
  from kalloc_pops_head [OF h1] states0(5)
  have 1: "kalloc cf0 full0 = (Returns 0, full0)"
    by simp
  from kalloc_pops_head [OF h2] f
  have 2: "fst (kalloc cf0 sole0) = Returns 4096"
      "freelist (snd (kalloc cf0 sole0)) = 0"
      "cnt (snd (kalloc cf0 sole0)) 1 = 1"
      "mem (snd (kalloc cf0 sole0)) 4096 = 5"
      "mem (snd (kalloc cf0 sole0)) 8191 = 5"
    by (simp_all add: PGSIZE_def)
  from 1 2 show ?thesis
    by simp
qed

subsection \<open>Free list and counts\<close>

text \<open>
  C2, as the claim has it, fails. The post-\<open>kinit\<close> state of a machine with two pages
  (at 4096 and 8192): \<open>kaddrefcnt\<close> on the page at 4096 passes the function's own test
  of its argument and returns 0, and leaves the page on the free list with count 1.
  (A second \<open>kfree\<close> of a page just freed does the same with count \<open>-1\<close>.)
\<close>

theorem duality_broken_on_free_page:
  "accepted cf0 (Kaddrefcnt 4096) \<and>
   fst (kaddrefcnt cf0 4096 (snd (kinit cf0 (boot (\<lambda>_. 0))))) = Returns 0 \<and>
   managed cf0 4096 \<and>
   on_freelist (krun cf0 [Kaddrefcnt 4096] (snd (kinit cf0 (boot (\<lambda>_. 0))))) 4096 \<and>
   cnt (krun cf0 [Kaddrefcnt 4096] (snd (kinit cf0 (boot (\<lambda>_. 0))))) (4096 div PGSIZE) = 1 \<and>
   \<not> P1 cf0 (krun cf0 [Kaddrefcnt 4096] (snd (kinit cf0 (boot (\<lambda>_. 0)))))"
proof -
  let ?s = "snd (kinit cf0 (boot (\<lambda>_. 0)))"
  from kinit_filled [OF cfg_ok0, of "\<lambda>_. 0"] obtain xs
    where f: "filled cf0 (PHYSTOP cf0) ?s xs"
    by blast
  have m: "managed cf0 4096"
    by (simp add: managed_def cf0_def PGSIZE_def)
  have g: "\<not> bad_pa cf0 4096" 
    by (simp add: bad_pa_def cf0_def PGSIZE_def)
  from filled_all_free [OF f m] have free: "on_freelist ?s 4096" and z: "cnt ?s (4096 div PGSIZE) = 0"
    by simp_all
  have k: "kaddrefcnt cf0 4096 ?s =
      (Returns 0, ?s\<lparr>cnt := (cnt ?s)(4096 div PGSIZE := cnt ?s (4096 div PGSIZE) + 1)\<rparr>)"
    using g managed_bounds(4) [OF cfg_ok0 m] by (simp add: kaddrefcnt_def)
  have 1: "on_freelist (krun cf0 [Kaddrefcnt 4096] ?s) 4096"
    using free by (simp add: k on_freelist_def)
  have 2: "cnt (krun cf0 [Kaddrefcnt 4096] ?s) (4096 div PGSIZE) = 1"
    using z by (simp add: k)
  have 3: "\<not> P1 cf0 (krun cf0 [Kaddrefcnt 4096] ?s)"
  proof
    assume "P1 cf0 (krun cf0 [Kaddrefcnt 4096] ?s)"
    with m 1 have "cnt (krun cf0 [Kaddrefcnt 4096] ?s) (4096 div PGSIZE) = 0"
      by (simp add: P1_def)
    with 2 show False by simp
  qed
  from g m k 1 2 3 show ?thesis
    by simp
qed

text \<open>
  C2, amended. For a configuration with \<^verbatim>\<open>end\<close> above 0 and at most \<^verbatim>\<open>PHYSTOP\<close>, and
  \<^verbatim>\<open>PHYSTOP\<close> a page boundary below \<open>2^64\<close>: \<open>kinit\<close> returns, and from the state it
  leaves, every sequence of \<open>kalloc\<close>, \<open>kfree\<close> and \<open>kaddrefcnt\<close> calls in which each
  \<open>kfree\<close> and each \<open>kaddrefcnt\<close> is given a page-aligned address in
  \<open>[end, PHYSTOP)\<close> whose count is positive at the time of the call keeps the
  invariant: a page in the managed range is on the free list exactly when its count
  is 0.
\<close>

theorem duality_kept_for_held_pages:
  assumes "cfg_ok cf" and "owned_run cf ops (snd (kinit cf (boot m0)))"
  shows "fst (kinit cf (boot m0)) = Returns () \<and>
         P1 cf (snd (kinit cf (boot m0))) \<and>
         P1 cf (krun cf ops (snd (kinit cf (boot m0))))"
proof -
  from kinit_filled [OF assms(1), of m0] obtain xs
    where r: "fst (kinit cf (boot m0)) = Returns ()"
      and f: "filled cf (PHYSTOP cf) (snd (kinit cf (boot m0))) xs"
    by blast
  from f have i: "kinv cf (snd (kinit cf (boot m0))) xs"
    by (rule filled_kinv)
  from kinv_krun [OF assms(1) i assms(2)] obtain ys
    where "kinv cf (krun cf ops (snd (kinit cf (boot m0)))) ys"
    by blast
  with r i show ?thesis
    by (simp add: kinv_P1)
qed

theorem duality_kept_for_held_pages_witness:
  "cfg_ok cf0 \<and>
   owned_run cf0 [Kalloc, Kaddrefcnt 8192, Kfree 8192, Kfree 8192] (snd (kinit cf0 (boot (\<lambda>_. 0)))) \<and>
   P1 cf0 (krun cf0 [Kalloc, Kaddrefcnt 8192, Kfree 8192, Kfree 8192]
             (snd (kinit cf0 (boot (\<lambda>_. 0)))))"
proof -
  have o: "owned_run cf0 [Kalloc, Kaddrefcnt 8192, Kfree 8192, Kfree 8192]
             (snd (kinit cf0 (boot (\<lambda>_. 0))))"
    by (simp add: kinit_cf0 kalloc_def kaddrefcnt_def kfree_def bad_pa_def cf0_simps Let_def
          PGSIZE_def load64_store64 word_sless_alt)
  from duality_kept_for_held_pages [OF cfg_ok0 o] cfg_ok0 o show ?thesis
    by simp
qed

subsection \<open>cowalloc\<close>

text \<open>
  C3. \<open>cowalloc\<close> on a page-aligned \<open>va\<close>, with \<open>mp\<close> standing for \<open>mappages\<close>.
  When \<open>walkaddr\<close> finds no valid user mapping, it returns null and changes nothing.
  When \<open>va\<close> is mapped by the entry \<open>e\<close> to a page \<open>pa\<close> that the allocator owns and
  somebody holds (count not 0), in a state where the free list and the counts agree:
  \<^item> count 1: the entry becomes \<open>(e | PTE_W) & ~PTE_F\<close>, \<open>pa\<close> is returned, the
    allocator's state is untouched (nothing is allocated);
  \<^item> otherwise, with an empty free list: null is returned, nothing changes;
  \<^item> otherwise, when \<open>mp\<close> succeeds: the head \<open>r\<close> of the free list is returned, its
    4096 bytes are those of \<open>pa\<close>, its count is 1, the count of \<open>pa\<close> is one less, the
    page table is the one \<open>mp\<close> made from the table with V cleared in \<open>e\<close>, for the
    page \<open>r\<close> and the flags \<open>(PTE_FLAGS(e & ~PTE_V) | PTE_W) & ~PTE_F\<close>;
  \<^item> otherwise, when \<open>mp\<close> fails: null is returned, \<open>r\<close> is back at the head of the
    free list with count 0, and the page table is the one before the call (V is
    set again in the entry).
  \<open>mappages\<close> as the spec has it succeeds on that table, and the entry it installs
  maps \<open>va\<close> to \<open>r\<close> with the flags \<open>(PTE_FLAGS(e) | PTE_W) & ~PTE_F\<close> when \<^verbatim>\<open>PTE_F\<close> is
  not the valid bit.
\<close>

theorem cowalloc_resolves:
  "(va mod PGSIZE = 0 \<and> walkaddr pt va = 0 \<longrightarrow> cowalloc cf mp pt va s = (Returns 0, pt, s)) \<and>
   (va mod PGSIZE = 0 \<and> pt va = Some e \<and> e AND PTE_V \<noteq> 0 \<and> e AND PTE_U \<noteq> 0 \<and>
    PTE2PA e = pa \<and> cfg_ok cf \<and> managed cf pa \<and> kinv cf s xs \<and> cnt s (pa div PGSIZE) \<noteq> 0 \<longrightarrow>
      (cnt s (pa div PGSIZE) = 1 \<longrightarrow>
         cowalloc cf mp pt va s = (Returns pa, pt(va \<mapsto> (e OR PTE_W) AND NOT (PTE_F cf)), s)) \<and>
      (cnt s (pa div PGSIZE) \<noteq> 1 \<and> xs = [] \<longrightarrow>
         freelist s = 0 \<and> cowalloc cf mp pt va s = (Returns 0, pt, s)) \<and>
      (\<forall>r rest. cnt s (pa div PGSIZE) \<noteq> 1 \<and> xs = r # rest \<longrightarrow>
         freelist s = r \<and>
         (\<forall>pt2. mp (pt(va \<mapsto> e AND NOT PTE_V)) va PGSIZE r
                  ((PTE_FLAGS (e AND NOT PTE_V) OR PTE_W) AND NOT (PTE_F cf)) = Some pt2 \<longrightarrow>
            fst (cowalloc cf mp pt va s) = Returns r \<and>
            fst (snd (cowalloc cf mp pt va s)) = pt2 \<and>
            cnt (snd (snd (cowalloc cf mp pt va s))) =
              (cnt s)(r div PGSIZE := 1, pa div PGSIZE := cnt s (pa div PGSIZE) - 1) \<and>
            (\<forall>k<PGSIZE. mem (snd (snd (cowalloc cf mp pt va s))) (r + k) = mem s (pa + k)) \<and>
            (\<forall>x. x < r \<or> r + PGSIZE \<le> x \<longrightarrow>
                 mem (snd (snd (cowalloc cf mp pt va s))) x = mem s x) \<and>
            kinv cf (snd (snd (cowalloc cf mp pt va s))) rest) \<and>
         (mp (pt(va \<mapsto> e AND NOT PTE_V)) va PGSIZE r
             ((PTE_FLAGS (e AND NOT PTE_V) OR PTE_W) AND NOT (PTE_F cf)) = None \<longrightarrow>
            fst (cowalloc cf mp pt va s) = Returns 0 \<and>
            fst (snd (cowalloc cf mp pt va s)) = pt \<and>
            cnt (snd (snd (cowalloc cf mp pt va s))) = cnt s \<and>
            on_freelist (snd (snd (cowalloc cf mp pt va s))) r \<and>
            kinv cf (snd (snd (cowalloc cf mp pt va s))) (r # rest)) \<and>
         mappages (pt(va \<mapsto> e AND NOT PTE_V)) va PGSIZE r
             ((PTE_FLAGS (e AND NOT PTE_V) OR PTE_W) AND NOT (PTE_F cf)) =
           Some (pt(va \<mapsto> PA2PTE r OR
                   ((PTE_FLAGS (e AND NOT PTE_V) OR PTE_W) AND NOT (PTE_F cf)) OR PTE_V)) \<and>
         PTE2PA (PA2PTE r OR
                   ((PTE_FLAGS (e AND NOT PTE_V) OR PTE_W) AND NOT (PTE_F cf)) OR PTE_V) = r \<and>
         (PTE_F cf AND PTE_V = 0 \<longrightarrow>
            PTE_FLAGS (PA2PTE r OR
                   ((PTE_FLAGS (e AND NOT PTE_V) OR PTE_W) AND NOT (PTE_F cf)) OR PTE_V) =
            (PTE_FLAGS e OR PTE_W) AND NOT (PTE_F cf))))"
proof (intro conjI impI)
  assume "va mod PGSIZE = 0 \<and> walkaddr pt va = 0"
  then show "cowalloc cf mp pt va s = (Returns 0, pt, s)"
    by (simp add: cowalloc_unmapped)
next
  assume h: "va mod PGSIZE = 0 \<and> pt va = Some e \<and> e AND PTE_V \<noteq> 0 \<and> e AND PTE_U \<noteq> 0 \<and>
    PTE2PA e = pa \<and> cfg_ok cf \<and> managed cf pa \<and> kinv cf s xs \<and> cnt s (pa div PGSIZE) \<noteq> 0"
  then have va: "va mod PGSIZE = 0" and e: "pt va = Some e" and v: "e AND PTE_V \<noteq> 0"
      and u: "e AND PTE_U \<noteq> 0" and pa: "PTE2PA e = pa" and ok: "cfg_ok cf"
      and mg: "managed cf pa" and inv: "kinv cf s xs" and held: "cnt s (pa div PGSIZE) \<noteq> 0"
    by simp_all
  note b = managed_bounds [OF ok mg]
  from b have pa0: "pa \<noteq> 0" by simp
  note m = va e v u pa pa0 b(4)
  assume "cnt s (pa div PGSIZE) = 1"
  then show "cowalloc cf mp pt va s = (Returns pa, pt(va \<mapsto> (e OR PTE_W) AND NOT (PTE_F cf)), s)"
    by (rule cowalloc_sole [where pt = pt and va = va and mp = mp, OF m])
next
  assume h: "va mod PGSIZE = 0 \<and> pt va = Some e \<and> e AND PTE_V \<noteq> 0 \<and> e AND PTE_U \<noteq> 0 \<and>
    PTE2PA e = pa \<and> cfg_ok cf \<and> managed cf pa \<and> kinv cf s xs \<and> cnt s (pa div PGSIZE) \<noteq> 0"
  assume "cnt s (pa div PGSIZE) \<noteq> 1 \<and> xs = []"
  with h show "freelist s = 0"
    by (simp add: kinv_def)
next
  assume h: "va mod PGSIZE = 0 \<and> pt va = Some e \<and> e AND PTE_V \<noteq> 0 \<and> e AND PTE_U \<noteq> 0 \<and>
    PTE2PA e = pa \<and> cfg_ok cf \<and> managed cf pa \<and> kinv cf s xs \<and> cnt s (pa div PGSIZE) \<noteq> 0"
  then have va: "va mod PGSIZE = 0" and e: "pt va = Some e" and v: "e AND PTE_V \<noteq> 0"
      and u: "e AND PTE_U \<noteq> 0" and pa: "PTE2PA e = pa" and ok: "cfg_ok cf"
      and mg: "managed cf pa" and inv: "kinv cf s xs" and held: "cnt s (pa div PGSIZE) \<noteq> 0"
    by simp_all
  note b = managed_bounds [OF ok mg]
  from b have pa0: "pa \<noteq> 0" by simp
  note m = va e v u pa pa0 b(4)
  assume a: "cnt s (pa div PGSIZE) \<noteq> 1 \<and> xs = []"
  with inv have "freelist s = 0"
    by (simp add: kinv_def)
  with a show "cowalloc cf mp pt va s = (Returns 0, pt, s)"
    by (intro cowalloc_nomem [where pt = pt and va = va and mp = mp, OF m]) simp_all
next
  assume h: "va mod PGSIZE = 0 \<and> pt va = Some e \<and> e AND PTE_V \<noteq> 0 \<and> e AND PTE_U \<noteq> 0 \<and>
    PTE2PA e = pa \<and> cfg_ok cf \<and> managed cf pa \<and> kinv cf s xs \<and> cnt s (pa div PGSIZE) \<noteq> 0"
  then have va: "va mod PGSIZE = 0" and e: "pt va = Some e" and v: "e AND PTE_V \<noteq> 0"
      and u: "e AND PTE_U \<noteq> 0" and pa: "PTE2PA e = pa" and ok: "cfg_ok cf"
      and mg: "managed cf pa" and inv: "kinv cf s xs" and held: "cnt s (pa div PGSIZE) \<noteq> 0"
    by simp_all
  note b = managed_bounds [OF ok mg]
  from b have pa0: "pa \<noteq> 0" by simp
  note m = va e v u pa pa0 b(4)
  show "\<forall>r rest. cnt s (pa div PGSIZE) \<noteq> 1 \<and> xs = r # rest \<longrightarrow>
         freelist s = r \<and>
         (\<forall>pt2. mp (pt(va \<mapsto> e AND NOT PTE_V)) va PGSIZE r
                  ((PTE_FLAGS (e AND NOT PTE_V) OR PTE_W) AND NOT (PTE_F cf)) = Some pt2 \<longrightarrow>
            fst (cowalloc cf mp pt va s) = Returns r \<and>
            fst (snd (cowalloc cf mp pt va s)) = pt2 \<and>
            cnt (snd (snd (cowalloc cf mp pt va s))) =
              (cnt s)(r div PGSIZE := 1, pa div PGSIZE := cnt s (pa div PGSIZE) - 1) \<and>
            (\<forall>k<PGSIZE. mem (snd (snd (cowalloc cf mp pt va s))) (r + k) = mem s (pa + k)) \<and>
            (\<forall>x. x < r \<or> r + PGSIZE \<le> x \<longrightarrow>
                 mem (snd (snd (cowalloc cf mp pt va s))) x = mem s x) \<and>
            kinv cf (snd (snd (cowalloc cf mp pt va s))) rest) \<and>
         (mp (pt(va \<mapsto> e AND NOT PTE_V)) va PGSIZE r
             ((PTE_FLAGS (e AND NOT PTE_V) OR PTE_W) AND NOT (PTE_F cf)) = None \<longrightarrow>
            fst (cowalloc cf mp pt va s) = Returns 0 \<and>
            fst (snd (cowalloc cf mp pt va s)) = pt \<and>
            cnt (snd (snd (cowalloc cf mp pt va s))) = cnt s \<and>
            on_freelist (snd (snd (cowalloc cf mp pt va s))) r \<and>
            kinv cf (snd (snd (cowalloc cf mp pt va s))) (r # rest)) \<and>
         mappages (pt(va \<mapsto> e AND NOT PTE_V)) va PGSIZE r
             ((PTE_FLAGS (e AND NOT PTE_V) OR PTE_W) AND NOT (PTE_F cf)) =
           Some (pt(va \<mapsto> PA2PTE r OR
                   ((PTE_FLAGS (e AND NOT PTE_V) OR PTE_W) AND NOT (PTE_F cf)) OR PTE_V)) \<and>
         PTE2PA (PA2PTE r OR
                   ((PTE_FLAGS (e AND NOT PTE_V) OR PTE_W) AND NOT (PTE_F cf)) OR PTE_V) = r \<and>
         (PTE_F cf AND PTE_V = 0 \<longrightarrow>
            PTE_FLAGS (PA2PTE r OR
                   ((PTE_FLAGS (e AND NOT PTE_V) OR PTE_W) AND NOT (PTE_F cf)) OR PTE_V) =
            (PTE_FLAGS e OR PTE_W) AND NOT (PTE_F cf))"
  proof (intro allI impI)
    fix r rest
    assume a: "cnt s (pa div PGSIZE) \<noteq> 1 \<and> xs = r # rest"
    then have shared: "cnt s (pa div PGSIZE) \<noteq> 1" and xs: "xs = r # rest"
      by simp_all
    let ?perm = "(PTE_FLAGS (e AND NOT PTE_V) OR PTE_W) AND NOT (PTE_F cf)"
    let ?pt1 = "pt(va \<mapsto> e AND NOT PTE_V)"
    note hd = kinv_head [OF ok inv [unfolded xs]]
    note rb = managed_bounds [OF ok hd(3)]
    let ?s1 = "s\<lparr>freelist := load64 (mem s) r, cnt := (cnt s)(r div PGSIZE := 1),
                  mem := memset (mem s) r 5 PGSIZE\<rparr>"
    let ?s2 = "?s1\<lparr>mem := memmove (mem ?s1) r pa PGSIZE\<rparr>"
    have ka: "kalloc cf s = (Returns r, ?s1)"
      by (rule kinv_kalloc_head [OF ok inv [unfolded xs]])
    have ne: "pa \<noteq> r"
      using hd(5) held by auto
    then have ix: "pa div PGSIZE \<noteq> r div PGSIZE"
      using aligned_div_inj [OF b(1) rb(1)] by blast
    have i1: "kinv cf ?s1 rest"
      using kinv_kalloc [OF ok inv [unfolded xs]] by (simp add: ka)
    have i2: "kinv cf ?s2 rest"
      using i1 hd(7) hd(4) rb(1) by (simp add: kinv_def chain_memmove)
    have copy: "mem ?s2 (r + k) = mem s (pa + k)" if "k < PGSIZE" for k
    proof -
      from page_apart [OF b(1) rb(1) ne that]
      have "memset (mem s) r 5 PGSIZE (pa + k) = mem s (pa + k)"
        by (intro memset_out) simp
      with that show ?thesis
        by (simp add: memmove_in)
    qed
    have rest_mem: "mem ?s2 x = mem s x" if "x < r \<or> r + PGSIZE \<le> x" for x
      using that by (simp add: memmove_out memset_out)
    show "freelist s = r \<and>
         (\<forall>pt2. mp ?pt1 va PGSIZE r ?perm = Some pt2 \<longrightarrow>
            fst (cowalloc cf mp pt va s) = Returns r \<and>
            fst (snd (cowalloc cf mp pt va s)) = pt2 \<and>
            cnt (snd (snd (cowalloc cf mp pt va s))) =
              (cnt s)(r div PGSIZE := 1, pa div PGSIZE := cnt s (pa div PGSIZE) - 1) \<and>
            (\<forall>k<PGSIZE. mem (snd (snd (cowalloc cf mp pt va s))) (r + k) = mem s (pa + k)) \<and>
            (\<forall>x. x < r \<or> r + PGSIZE \<le> x \<longrightarrow>
                 mem (snd (snd (cowalloc cf mp pt va s))) x = mem s x) \<and>
            kinv cf (snd (snd (cowalloc cf mp pt va s))) rest) \<and>
         (mp ?pt1 va PGSIZE r ?perm = None \<longrightarrow>
            fst (cowalloc cf mp pt va s) = Returns 0 \<and>
            fst (snd (cowalloc cf mp pt va s)) = pt \<and>
            cnt (snd (snd (cowalloc cf mp pt va s))) = cnt s \<and>
            on_freelist (snd (snd (cowalloc cf mp pt va s))) r \<and>
            kinv cf (snd (snd (cowalloc cf mp pt va s))) (r # rest)) \<and>
         mappages ?pt1 va PGSIZE r ?perm = Some (pt(va \<mapsto> PA2PTE r OR ?perm OR PTE_V)) \<and>
         PTE2PA (PA2PTE r OR ?perm OR PTE_V) = r \<and>
         (PTE_F cf AND PTE_V = 0 \<longrightarrow>
            PTE_FLAGS (PA2PTE r OR ?perm OR PTE_V) = (PTE_FLAGS e OR PTE_W) AND NOT (PTE_F cf))"
    proof (intro conjI allI impI)
      show "freelist s = r" by (rule hd(1))
    next
      fix pt2 assume mp: "mp ?pt1 va PGSIZE r ?perm = Some pt2"
      let ?s3 = "?s2\<lparr>cnt := (cnt ?s2)(pa div PGSIZE := cnt ?s2 (pa div PGSIZE) - 1)\<rparr>"
      have kf: "kfree cf (PGROUNDDOWN pa) ?s2 = (Returns (), ?s3)"
        using b ix shared by (simp add: kfree_def Let_def PGROUNDDOWN_aligned)
      have c: "cowalloc cf mp pt va s = (Returns r, pt2, ?s3)"
        by (rule cowalloc_copy [where pt = pt and va = va and mp = mp, OF m shared ka hd(2) mp kf])
      have own: "\<not> bad_pa cf pa" "cnt ?s2 (pa div PGSIZE) \<noteq> 0" "cnt ?s2 (pa div PGSIZE) - 1 \<noteq> 0"
        using b held shared ix by simp_all
      show "fst (cowalloc cf mp pt va s) = Returns r" "fst (snd (cowalloc cf mp pt va s)) = pt2"
        by (simp_all add: c)
      show "cnt (snd (snd (cowalloc cf mp pt va s))) =
              (cnt s)(r div PGSIZE := 1, pa div PGSIZE := cnt s (pa div PGSIZE) - 1)"
        using ix by (simp add: c)
      show "mem (snd (snd (cowalloc cf mp pt va s))) (r + k) = mem s (pa + k)" if "k < PGSIZE" for k
        using copy [OF that] by (simp add: c)
      show "mem (snd (snd (cowalloc cf mp pt va s))) x = mem s x" if "x < r \<or> r + PGSIZE \<le> x" for x
        using rest_mem [OF that] by (simp add: c)
      have "kinv cf ?s3 rest"
      proof -
        from i2 have p: "\<forall>a. managed cf a \<longrightarrow> (a \<in> set rest \<longleftrightarrow> cnt ?s2 (a div PGSIZE) = 0)"
          by (simp add: kinv_def)
        have "a \<in> set rest \<longleftrightarrow> cnt ?s3 (a div PGSIZE) = 0" if a: "managed cf a" for a
        proof (cases "a = pa")
          case True
          with p mg own show ?thesis by simp
        next
          case False
          with aligned_div_inj [OF managed_bounds(1) [OF ok a] b(1)]
          have "a div PGSIZE \<noteq> pa div PGSIZE" by blast
          with p a show ?thesis by simp
        qed
        with i2 show ?thesis
          by (simp add: kinv_def)
      qed
      then show "kinv cf (snd (snd (cowalloc cf mp pt va s))) rest"
        by (simp add: c)
    next
      assume mp: "mp ?pt1 va PGSIZE r ?perm = None"
      let ?s3 = "?s2\<lparr>cnt := (cnt ?s2)(r div PGSIZE := 0),
                     mem := store64 (memset (mem ?s2) r 1 PGSIZE) r (freelist ?s2),
                     freelist := r\<rparr>"
      have kf: "kfree cf r ?s2 = (Returns (), ?s3)"
        using rb by (simp add: kfree_def Let_def)
      have c: "cowalloc cf mp pt va s = (Returns 0, pt, ?s3)"
        by (rule cowalloc_mapfail [where pt = pt and va = va and mp = mp, OF m shared ka hd(2) mp kf])
      show "fst (cowalloc cf mp pt va s) = Returns 0" "fst (snd (cowalloc cf mp pt va s)) = pt"
        by (simp_all add: c)
      show "cnt (snd (snd (cowalloc cf mp pt va s))) = cnt s"
        using hd(5) by (simp add: c fun_upd_idem)
      have i3: "kinv cf ?s3 (r # rest)"
      proof -
        from i2 have ch: "chain (mem ?s2) (freelist ?s2) rest" and d: "distinct rest"
            and mr: "\<forall>x\<in>set rest. managed cf x"
          by (simp_all add: kinv_def)
        have "chain (store64 (memset (mem ?s2) r 1 PGSIZE) r (freelist ?s2)) r (r # rest)"
          by (rule chain_push [OF ch hd(7) rb(1) hd(4) rb(2)])
        moreover from inv xs
        have "\<forall>a. managed cf a \<longrightarrow> (a \<in> set (r # rest) \<longleftrightarrow> cnt s (a div PGSIZE) = 0)"
          by (simp add: kinv_def)
        ultimately show ?thesis
          using d mr hd(3,4,5) by (simp add: kinv_def fun_upd_idem)
      qed
      then show "kinv cf (snd (snd (cowalloc cf mp pt va s))) (r # rest)"
        by (simp add: c)
      from i3 have "chain (mem ?s3) (freelist ?s3) (r # rest)"
        by (simp add: kinv_def)
      from chain_reach [OF this, of r] show "on_freelist (snd (snd (cowalloc cf mp pt va s))) r"
        by (simp add: c on_freelist_def)
    next
      show "mappages ?pt1 va PGSIZE r ?perm = Some (pt(va \<mapsto> PA2PTE r OR ?perm OR PTE_V))"
        using mappages_one [of va ?pt1 "e AND NOT PTE_V" r ?perm] va
        by (simp add: clear_V)
    next
      show "PTE2PA (PA2PTE r OR ?perm OR PTE_V) = r"
        by (rule pa_after [OF rb(1) rb(3)])
    next
      assume "PTE_F cf AND PTE_V = 0"
      with v show "PTE_FLAGS (PA2PTE r OR ?perm OR PTE_V) = (PTE_FLAGS e OR PTE_W) AND NOT (PTE_F cf)"
        by (rule flags_after)
    qed
  qed
qed

theorem cowalloc_resolves_witness:
  "cowalloc cf0 mappages Map.empty 0 shared0 = (Returns 0, Map.empty, shared0) \<and>
   cowalloc cf0 mappages pt0 0 sole0 =
     (Returns 8192, pt0(0 \<mapsto> (2323 OR PTE_W) AND NOT 256), sole0) \<and>
   cowalloc cf0 mappages pt0 0 full0 = (Returns 0, pt0, full0) \<and>
   fst (cowalloc cf0 mappages pt0 0 shared0) = Returns 4096 \<and>
   cnt (snd (snd (cowalloc cf0 mappages pt0 0 shared0))) 2 = 1 \<and>
   cnt (snd (snd (cowalloc cf0 mappages pt0 0 shared0))) 1 = 1 \<and>
   (\<exists>e'. fst (snd (cowalloc cf0 mappages pt0 0 shared0)) = pt0(0 \<mapsto> e') \<and> PTE2PA e' = 4096) \<and>
   fst (cowalloc cf0 (\<lambda>_ _ _ _ _. None) pt0 0 shared0) = Returns 0 \<and>
   fst (snd (cowalloc cf0 (\<lambda>_ _ _ _ _. None) pt0 0 shared0)) = pt0 \<and>
   cnt (snd (snd (cowalloc cf0 (\<lambda>_ _ _ _ _. None) pt0 0 shared0))) = cnt shared0"
proof -
  have mg: "managed cf0 8192"
    by (simp add: managed_def cf0_def PGSIZE_def)
  have ix: "8192 div PGSIZE = 2" "4096 div PGSIZE = 1"
    by (simp_all add: PGSIZE_def)
  have f: "PTE_F cf0 = 256"
    by (simp add: cf0_def)
  note base = e0 cfg_ok0 mg
  let ?perm = "(PTE_FLAGS (2323 AND NOT PTE_V) OR PTE_W) AND NOT (PTE_F cf0)"
  \<comment> \<open>not mapped\<close>
  have u: "cowalloc cf0 mappages Map.empty 0 shared0 = (Returns 0, Map.empty, shared0)"
    using cowalloc_resolves [where va = 0 and pt = Map.empty and cf = cf0 and mp = mappages and s = shared0]
    by (simp add: walkaddr_def walk_def PGROUNDDOWN_def)
  \<comment> \<open>one holder\<close>
  from kinv0(2) obtain xs1 where i1: "kinv cf0 sole0 xs1" ..
  have s: "cowalloc cf0 mappages pt0 0 sole0 =
     (Returns 8192, pt0(0 \<mapsto> (2323 OR PTE_W) AND NOT 256), sole0)"
    using cowalloc_resolves [where va = 0 and pt = pt0 and cf = cf0 and mp = mappages and s = sole0
                and e = 2323 and pa = 8192 and xs = xs1] base i1 states0
    by (simp add: pt0_def ix f)
  \<comment> \<open>no page left\<close>
  from kinv0(3) obtain xs3 where i3: "kinv cf0 full0 xs3" ..
  with states0 have x3: "xs3 = []"
    by (cases xs3) (simp_all add: kinv_def)
  have n: "cowalloc cf0 mappages pt0 0 full0 = (Returns 0, pt0, full0)"
    using cowalloc_resolves [where va = 0 and pt = pt0 and cf = cf0 and mp = mappages and s = full0
                and e = 2323 and pa = 8192 and xs = xs3] base i3 states0 x3
    by (simp add: pt0_def ix)
  \<comment> \<open>two holders\<close>
  from kinv0(1) obtain xs2 where i2: "kinv cf0 shared0 xs2" ..
  with states0 obtain rest where x2: "xs2 = 4096 # rest"
    by (cases xs2) (auto simp: kinv_def)
  have mpo: "mappages (pt0(0 \<mapsto> 2323 AND NOT PTE_V)) 0 PGSIZE 4096 ?perm =
      Some (pt0(0 \<mapsto> PA2PTE 4096 OR ?perm OR PTE_V))"
    using mappages_one [of 0 "pt0(0 \<mapsto> 2323 AND NOT PTE_V)" "2323 AND NOT PTE_V" 4096 ?perm]
    by (simp add: clear_V)
  from cowalloc_resolves [where va = 0 and pt = pt0 and cf = cf0 and mp = mappages and s = shared0
                and e = 2323 and pa = 8192 and xs = xs2] base i2 states0 x2 mpo
  have c: "fst (cowalloc cf0 mappages pt0 0 shared0) = Returns 4096"
      "fst (snd (cowalloc cf0 mappages pt0 0 shared0)) = pt0(0 \<mapsto> PA2PTE 4096 OR ?perm OR PTE_V)"
      "cnt (snd (snd (cowalloc cf0 mappages pt0 0 shared0))) =
         (cnt shared0)(4096 div PGSIZE := 1, 8192 div PGSIZE := cnt shared0 (8192 div PGSIZE) - 1)"
      "PTE2PA (PA2PTE 4096 OR ?perm OR PTE_V) = 4096"
    by (simp_all add: pt0_def ix)
  have mpn: "(\<lambda>_ _ _ _ _. None) (pt0(0 \<mapsto> 2323 AND NOT PTE_V)) 0 PGSIZE 4096 ?perm = None"
    by simp
  from cowalloc_resolves [where va = 0 and pt = pt0 and cf = cf0 and mp = "\<lambda>_ _ _ _ _. None" and s = shared0
                and e = 2323 and pa = 8192 and xs = xs2] base i2 states0 x2
  have m: "fst (cowalloc cf0 (\<lambda>_ _ _ _ _. None) pt0 0 shared0) = Returns 0"
      "fst (snd (cowalloc cf0 (\<lambda>_ _ _ _ _. None) pt0 0 shared0)) = pt0"
      "cnt (snd (snd (cowalloc cf0 (\<lambda>_ _ _ _ _. None) pt0 0 shared0))) = cnt shared0"
    by (simp_all add: pt0_def ix)
  from u s n c m states0 show ?thesis
    by (auto simp: ix)
qed


end
